theory Spec2Isabelle
  imports Main "HOL-Library.Word"
begin

unbundle bit_operations_syntax

section \<open>Bytes, strings and runes of the Go program\<close>

text \<open>
  A Go \<open>string\<close> and a \<open>[]byte\<close> are sequences of bytes; a \<open>rune\<close> is an \<open>int32\<close>.
  A field of a record is an \<open>sql.RawBytes\<close>, a byte slice that is \<open>nil\<close> for SQL NULL:
  \<open>None\<close> is the nil slice, \<open>Some bs\<close> a non-nil slice (possibly empty).
\<close>

type_synonym byte = "8 word"
type_synonym gostring = "byte list"
type_synonym rune = "32 word"
type_synonym RawBytes = "byte list option"

text \<open>
  \<open>utf8.EncodeRune\<close> of the Go standard library: the UTF-8 encoding of a rune. The rune
  is compared as \<open>uint32\<close>, so negative runes, runes above \<open>utf8.MaxRune\<close> and surrogate
  halves are encoded as \<open>utf8.RuneError\<close> (U+FFFD).
\<close>

definition RuneError :: rune where
  "RuneError = 0xFFFD"

definition utf8_EncodeRune :: "rune \<Rightarrow> byte list" where
  "utf8_EncodeRune r =
     (if r \<le> 0x7F then [ucast r]
      else if r \<le> 0x7FF then
        [0xC0 OR ucast (drop_bit 6 r), 0x80 OR (ucast r AND 0x3F)]
      else if r > 0x10FFFF \<or> (0xD800 \<le> r \<and> r \<le> 0xDFFF) then
        [0xE0 OR ucast (drop_bit 12 RuneError),
         0x80 OR (ucast (drop_bit 6 RuneError) AND 0x3F),
         0x80 OR (ucast RuneError AND 0x3F)]
      else if r \<le> 0xFFFF then
        [0xE0 OR ucast (drop_bit 12 r),
         0x80 OR (ucast (drop_bit 6 r) AND 0x3F),
         0x80 OR (ucast r AND 0x3F)]
      else
        [0xF0 OR ucast (drop_bit 18 r),
         0x80 OR (ucast (drop_bit 12 r) AND 0x3F),
         0x80 OR (ucast (drop_bit 6 r) AND 0x3F),
         0x80 OR (ucast r AND 0x3F)])"

text \<open>
  The Go conversion \<open>string(f)\<close> of a byte \<open>f\<close> (csv_writer.go, \<open>switch string(f)\<close>): an
  integer converted to a string gives the UTF-8 representation of the code point with that
  number, so a byte from \<open>0x80\<close> on becomes a string of two bytes.
\<close>

definition string_of_byte :: "byte \<Rightarrow> gostring" where
  "string_of_byte f = utf8_EncodeRune (ucast f)"

section \<open>The destination and the buffered writer\<close>

text \<open>
  An error value of Go. \<open>ErrShortWrite\<close> is \<open>io.ErrShortWrite\<close>; \<open>DestError k\<close> stands for
  any error value a destination returns from its \<open>Write\<close> (the test file's
  \<open>errors.New("Test")\<close> is one of them).
\<close>

datatype error = ErrShortWrite | DestError nat

text \<open>
  The destination handed to \<open>NewWriter\<close> is any \<open>io.Writer\<close>: an object with a state of its
  own and a \<open>Write\<close> method that returns how many bytes it took and an error. The method is
  a field of the record, as the interface value carries it. \<open>wr_calls\<close> is instrumentation:
  the history of the calls the destination has received, each with its argument and its
  results, oldest first. The count a \<open>Write\<close> returns is taken as a natural number: the
  contract of \<open>io.Writer\<close> (\<open>0 <= n <= len(p)\<close>) is assumed of every destination.
\<close>

record 's io_Writer =
  wr_Write :: "'s \<Rightarrow> byte list \<Rightarrow> nat \<times> error option \<times> 's"
  wr_state :: 's
  wr_calls :: "(byte list \<times> nat \<times> error option) list"

definition dest_Write :: "'s io_Writer \<Rightarrow> byte list \<Rightarrow> nat \<times> error option \<times> 's io_Writer" where
  "dest_Write d p =
     (case wr_Write d (wr_state d) p of
        (n, e, s') \<Rightarrow> (n, e, d\<lparr>wr_state := s', wr_calls := wr_calls d @ [(p, n, e)]\<rparr>))"

text \<open>
  \<open>bufio.Writer\<close> of the Go standard library, which the repository's \<open>Writer\<close> wraps. The
  library has \<open>buf []byte\<close> of fixed length and a fill count \<open>n\<close>; \<open>b_buf\<close> is the filled
  part \<open>buf[0:n]\<close>, so \<open>n\<close> is its length. \<open>bufio.NewWriter\<close> allocates
  \<open>defaultBufSize = 4096\<close> bytes.
\<close>

record 's bufio_Writer =
  b_err :: "error option"
  b_buf :: "byte list"
  b_wr :: "'s io_Writer"

definition defaultBufSize :: nat where
  "defaultBufSize = 4096"

definition bufio_NewWriter :: "'s io_Writer \<Rightarrow> 's bufio_Writer" where
  "bufio_NewWriter d = \<lparr>b_err = None, b_buf = [], b_wr = d\<rparr>"

definition Available :: "'s bufio_Writer \<Rightarrow> nat" where
  "Available b = defaultBufSize - length (b_buf b)"

definition Buffered :: "'s bufio_Writer \<Rightarrow> nat" where
  "Buffered b = length (b_buf b)"

text \<open>
  \<open>(*bufio.Writer).Flush\<close>: nothing happens once an error is recorded or when the buffer is
  empty; otherwise one \<open>Write\<close> of the whole buffer goes to the destination, a short count
  without an error becomes \<open>io.ErrShortWrite\<close>, and on an error the bytes not taken stay
  in the buffer and the error is recorded.
\<close>

definition bufio_Flush :: "'s bufio_Writer \<Rightarrow> error option \<times> 's bufio_Writer" where
  "bufio_Flush b =
     (if b_err b \<noteq> None then (b_err b, b)
      else if b_buf b = [] then (None, b)
      else
        (case dest_Write (b_wr b) (b_buf b) of
           (n, e, d') \<Rightarrow>
             (let e' = (if n < length (b_buf b) \<and> e = None then Some ErrShortWrite else e)
              in if e' \<noteq> None
                 then (e', b\<lparr>b_err := e', b_buf := drop n (b_buf b), b_wr := d'\<rparr>)
                 else (None, b\<lparr>b_buf := [], b_wr := d'\<rparr>))))"

text \<open>
  \<open>(*bufio.Writer).WriteString\<close>, the loop of the Go releases the repository was written
  for (current Go runs the same loop for a destination that has no \<open>WriteString\<close> of its
  own): while the string does not fit and no error is recorded, fill the buffer and flush.
  \<open>nn\<close> is the count written so far.
\<close>

function WriteString_loop ::
  "'s bufio_Writer \<Rightarrow> gostring \<Rightarrow> nat \<Rightarrow> nat \<times> error option \<times> 's bufio_Writer" where
  "WriteString_loop b s nn =
     (if length s > Available b \<and> b_err b = None then
        (let n = min (Available b) (length s);
             b1 = b\<lparr>b_buf := b_buf b @ take n s\<rparr>
         in WriteString_loop (snd (bufio_Flush b1)) (drop n s) (nn + n))
      else if b_err b \<noteq> None then (nn, b_err b, b)
      else (nn + length s, None, b\<lparr>b_buf := b_buf b @ s\<rparr>))"
  by pat_completeness auto
termination
proof (relation "measure (\<lambda>(b, s, nn). 3 * length s +
          (if b_err b \<noteq> None then 0 else if Available b = 0 then 2 else 1))", goal_cases)
  case 1
  show ?case by simp
next
  case (2 b s nn n b1)
  have prog: "b_err (snd (bufio_Flush c)) \<noteq> None \<or> b_buf (snd (bufio_Flush c)) = []" for c :: "'a bufio_Writer"
    by (auto simp: bufio_Flush_def Let_def split: prod.splits)
  define b2 where "b2 = snd (bufio_Flush b1)"
  from 2 have e: "b_err b = None" and lt: "Available b < length s" and n: "n = Available b"
    by auto
  have b2: "b_err b2 \<noteq> None \<or> Available b2 \<noteq> 0"
    using prog [of b1] by (auto simp: b2_def Available_def defaultBufSize_def)
  show ?case
  proof (cases "Available b = 0")
    case True
    then show ?thesis using b2 e n by (auto simp: b2_def [symmetric])
  next
    case False
    with n lt have "0 < n" "n \<le> length s" by auto
    then have "3 * length (drop n s) + 3 \<le> 3 * length s" by simp
    moreover have "(if b_err b2 \<noteq> None then 0
                    else if Available b2 = 0 then 2 else 1) \<le> (2::nat)"
      by simp
    ultimately show ?thesis using e by (simp del: length_drop add: b2_def [symmetric])
  qed
qed

declare WriteString_loop.simps [simp del]

definition bufio_WriteString ::
  "'s bufio_Writer \<Rightarrow> gostring \<Rightarrow> nat \<times> error option \<times> 's bufio_Writer" where
  "bufio_WriteString b s = WriteString_loop b s 0"

text \<open>\<open>(*bufio.Writer).WriteByte\<close>.\<close>

definition bufio_WriteByte :: "'s bufio_Writer \<Rightarrow> byte \<Rightarrow> error option \<times> 's bufio_Writer" where
  "bufio_WriteByte b c =
     (if b_err b \<noteq> None then (b_err b, b)
      else if Available b \<le> 0 then
        (case bufio_Flush b of
           (e, b') \<Rightarrow>
             if e \<noteq> None then (b_err b', b')
             else (None, b'\<lparr>b_buf := b_buf b' @ [c]\<rparr>))
      else (None, b\<lparr>b_buf := b_buf b @ [c]\<rparr>))"

text \<open>
  \<open>(*bufio.Writer).WriteRune\<close>: a rune below \<open>utf8.RuneSelf = 0x80\<close> is one \<open>WriteByte\<close>;
  a longer one needs \<open>utf8.UTFMax = 4\<close> free bytes, after a flush when there are fewer.
\<close>

definition bufio_WriteRune ::
  "'s bufio_Writer \<Rightarrow> rune \<Rightarrow> nat \<times> error option \<times> 's bufio_Writer" where
  "bufio_WriteRune b r =
     (if r < 0x80 then
        (case bufio_WriteByte b (ucast r) of
           (e, b') \<Rightarrow> if e \<noteq> None then (0, e, b') else (1, None, b'))
      else if b_err b \<noteq> None then (0, b_err b, b)
      else if Available b < 4 then
        (case bufio_Flush b of
           (_, b') \<Rightarrow>
             if b_err b' \<noteq> None then (0, b_err b', b')
             else if Available b' < 4 then bufio_WriteString b' (utf8_EncodeRune r)
             else (length (utf8_EncodeRune r), None,
                   b'\<lparr>b_buf := b_buf b' @ utf8_EncodeRune r\<rparr>))
      else (length (utf8_EncodeRune r), None, b\<lparr>b_buf := b_buf b @ utf8_EncodeRune r\<rparr>))"

text \<open>
  \<open>(*bufio.Writer).Write\<close>. With an empty buffer a slice that does not fit goes to the
  destination directly, and the loop goes on with what the destination did not take: a
  destination that takes nothing and reports no error keeps it running, so the function is
  partial and \<open>None\<close> stands for a call that does not return.
\<close>

partial_function (option) Write_loop ::
  "'s bufio_Writer \<Rightarrow> byte list \<Rightarrow> nat \<Rightarrow> (nat \<times> error option \<times> 's bufio_Writer) option" where
  "Write_loop b p nn =
     (if length p > Available b \<and> b_err b = None then
        (if Buffered b = 0 then
           (case dest_Write (b_wr b) p of
              (n, e, d') \<Rightarrow> Write_loop (b\<lparr>b_err := e, b_wr := d'\<rparr>) (drop n p) (nn + n))
         else
           (let n = min (Available b) (length p);
                b1 = b\<lparr>b_buf := b_buf b @ take n p\<rparr>
            in Write_loop (snd (bufio_Flush b1)) (drop n p) (nn + n)))
      else if b_err b \<noteq> None then Some (nn, b_err b, b)
      else Some (nn + length p, None, b\<lparr>b_buf := b_buf b @ p\<rparr>))"

declare Write_loop.simps [code]

definition bufio_Write ::
  "'s bufio_Writer \<Rightarrow> byte list \<Rightarrow> (nat \<times> error option \<times> 's bufio_Writer) option" where
  "bufio_Write b p = Write_loop b p 0"


section \<open>The CSV writer (csv_writer.go)\<close>

text \<open>
  \<open>type Writer struct\<close>: the four symbols are strings; \<open>w_bufio\<close> is the field \<open>w\<close>.
\<close>

record 's Writer =
  Delimiter :: gostring
  Quote :: gostring
  Escape :: gostring
  Terminator :: gostring
  w_bufio :: "'s bufio_Writer"

text \<open>\<open>NewWriter\<close>: comma, double quote, backslash, newline.\<close>

definition NewWriter :: "'s io_Writer \<Rightarrow> 's Writer" where
  "NewWriter d =
     \<lparr>Delimiter = [0x2C], Quote = [0x22], Escape = [0x5C], Terminator = [0x0A],
      w_bufio = bufio_NewWriter d\<rparr>"

text \<open>
  The calls \<open>w.w.WriteString(s)\<close>, \<open>w.w.WriteByte(f)\<close> and \<open>w.w.WriteRune(r)\<close> on the
  writer's buffer, keeping the error each returns.
\<close>

definition wWriteString :: "'s Writer \<Rightarrow> gostring \<Rightarrow> error option \<times> 's Writer" where
  "wWriteString w s =
     (case bufio_WriteString (w_bufio w) s of (_, e, b) \<Rightarrow> (e, w\<lparr>w_bufio := b\<rparr>))"

definition wWriteByte :: "'s Writer \<Rightarrow> byte \<Rightarrow> error option \<times> 's Writer" where
  "wWriteByte w f =
     (case bufio_WriteByte (w_bufio w) f of (e, b) \<Rightarrow> (e, w\<lparr>w_bufio := b\<rparr>))"

definition wWriteRune :: "'s Writer \<Rightarrow> rune \<Rightarrow> error option \<times> 's Writer" where
  "wWriteRune w r =
     (case bufio_WriteRune (w_bufio w) r of (_, e, b) \<Rightarrow> (e, w\<lparr>w_bufio := b\<rparr>))"

text \<open>
  The body of \<open>switch string(f)\<close> in \<open>Write\<close>: the cases are tried in the order of the
  source and the first that matches runs. Where a case makes two writes the error of the
  first is overwritten by the second, as in \<open>_, err = ...; _, err = ...\<close>.
\<close>

definition write_switch :: "'s Writer \<Rightarrow> byte \<Rightarrow> error option \<times> 's Writer" where
  "write_switch w f =
     (let s = string_of_byte f in
      if s = Delimiter w then
        (if Quote w = [] then
           (case wWriteString w (Escape w) of (_, w1) \<Rightarrow> wWriteString w1 (Delimiter w1))
         else wWriteString w (Delimiter w))
      else if s = Quote w then
        (case wWriteString w (Escape w) of (_, w1) \<Rightarrow> wWriteString w1 (Quote w1))
      else if s = Escape w then
        (case wWriteString w (Escape w) of (_, w1) \<Rightarrow> wWriteString w1 (Escape w1))
      else if s = string_of_byte 0x00 then
        (case wWriteString w (Escape w) of (_, w1) \<Rightarrow> wWriteRune w1 0x30)
      else if s = string_of_byte 0x0A then
        (case wWriteString w (Escape w) of (_, w1) \<Rightarrow> wWriteByte w1 f)
      else wWriteByte w f)"

text \<open>
  \<open>for _, f := range field\<close>: the switch for each byte, returning at the first error. The
  result \<open>Some e\<close> is the \<open>return\<close> inside the loop.
\<close>

fun write_field_bytes :: "'s Writer \<Rightarrow> byte list \<Rightarrow> error option \<times> 's Writer" where
  "write_field_bytes w [] = (None, w)"
| "write_field_bytes w (f # fs) =
     (case write_switch w f of
        (e, w1) \<Rightarrow> if e \<noteq> None then (e, w1) else write_field_bytes w1 fs)"

text \<open>
  \<open>for n, field := range record\<close>, from index \<open>n\<close> on. \<open>Some e\<close> is one of the early
  \<open>return\<close>s; the nil branch checks no error and goes on with \<open>continue\<close>.
\<close>

fun write_fields :: "'s Writer \<Rightarrow> nat \<Rightarrow> RawBytes list \<Rightarrow> error option \<times> 's Writer" where
  "write_fields w n [] = (None, w)"
| "write_fields w n (field # rest) =
     (case (if n > 0 then wWriteString w (Delimiter w) else (None, w)) of
        (e1, w1) \<Rightarrow>
          if e1 \<noteq> None then (e1, w1)
          else
            (case field of
               None \<Rightarrow>
                 (case wWriteString w1 (Escape w1) of
                    (_, w2) \<Rightarrow>
                      (case wWriteString w2 [0x4E] of
                         (_, w3) \<Rightarrow> write_fields w3 (n + 1) rest))
             | Some bs \<Rightarrow>
                 (case (if Quote w1 \<noteq> [] then wWriteString w1 (Quote w1) else (None, w1)) of
                    (e2, w2) \<Rightarrow>
                      if e2 \<noteq> None then (e2, w2)
                      else
                        (case write_field_bytes w2 bs of
                           (e3, w3) \<Rightarrow>
                             if e3 \<noteq> None then (e3, w3)
                             else
                               (case (if Quote w3 \<noteq> [] then wWriteString w3 (Quote w3)
                                      else (None, w3)) of
                                  (e4, w4) \<Rightarrow>
                                    if e4 \<noteq> None then (e4, w4)
                                    else write_fields w4 (n + 1) rest)))))"

text \<open>
  \<open>func (w *Writer) Write(record []sql.RawBytes) (buf int, err error)\<close>. An early return
  leaves the named result \<open>buf\<close> at its zero value; otherwise the terminator is written
  and \<open>buf\<close> is \<open>w.w.Buffered()\<close>.
\<close>

definition Write :: "'s Writer \<Rightarrow> RawBytes list \<Rightarrow> nat \<times> error option \<times> 's Writer" where
  "Write w record =
     (case write_fields w 0 record of
        (Some e, w1) \<Rightarrow> (0, Some e, w1)
      | (None, w1) \<Rightarrow>
          (case wWriteString w1 (Terminator w1) of
             (e, w2) \<Rightarrow> (Buffered (w_bufio w2), e, w2)))"

text \<open>\<open>func (w *Writer) Flush()\<close>: the error of the flush is dropped.\<close>

definition Flush :: "'s Writer \<Rightarrow> 's Writer" where
  "Flush w = w\<lparr>w_bufio := snd (bufio_Flush (w_bufio w))\<rparr>"

text \<open>
  \<open>func (w *Writer) Error() error\<close>: \<open>w.w.Write(nil)\<close>, a write of no bytes. \<open>None\<close> is a
  call that does not return.
\<close>

definition Error :: "'s Writer \<Rightarrow> (error option \<times> 's Writer) option" where
  "Error w =
     (case bufio_Write (w_bufio w) [] of
        None \<Rightarrow> None
      | Some (_, e, b) \<Rightarrow> Some (e, w\<lparr>w_bufio := b\<rparr>))"

text \<open>\<open>func (w *Writer) WriteAll(records [][]sql.RawBytes) (err error)\<close>.\<close>

fun WriteAll :: "'s Writer \<Rightarrow> RawBytes list list \<Rightarrow> error option \<times> 's Writer" where
  "WriteAll w [] =
     (case bufio_Flush (w_bufio w) of (e, b) \<Rightarrow> (e, w\<lparr>w_bufio := b\<rparr>))"
| "WriteAll w (record # records) =
     (case Write w record of
        (_, e, w1) \<Rightarrow> if e \<noteq> None then (e, w1) else WriteAll w1 records)"

text \<open>
  Two destinations of the test file. \<open>bytes.Buffer\<close> appends what it is given and never
  fails; \<open>errorWriter\<close> takes nothing and returns the error \<open>"Test"\<close>.
\<close>

definition bytes_Buffer :: "(byte list) io_Writer" where
  "bytes_Buffer =
     \<lparr>wr_Write = (\<lambda>s p. (length p, None, s @ p)), wr_state = [], wr_calls = []\<rparr>"

definition errTest :: error where
  "errTest = DestError 0"

definition errorWriter :: "unit io_Writer" where
  "errorWriter = \<lparr>wr_Write = (\<lambda>s p. (0, Some errTest, s)), wr_state = (), wr_calls = []\<rparr>"

text \<open>
  What has left the program: \<open>sent\<close> is the bytes the destination has taken, call by call;
  \<open>written\<close> adds the bytes still pending in the buffer.
\<close>

definition sent :: "'s io_Writer \<Rightarrow> byte list" where
  "sent d = concat (map (\<lambda>(p, n, e). take n p) (wr_calls d))"

definition written :: "'s Writer \<Rightarrow> byte list" where
  "written w = sent (b_wr (w_bufio w)) @ b_buf (w_bufio w)"

section \<open>Configuration of the writer in \<open>main\<close>\<close>

text \<open>
  The current \<open>main\<close> sets the symbols of the writer from the flags \<open>-d\<close>, \<open>-q\<close>, \<open>-e\<close> and
  \<open>-t\<close>, which are strings: the two characters backslash, \<open>t\<close> stand for a tab, the
  literal strings backslash-r-backslash-n and backslash-n for the line ends, and every
  other value is stored as it is. Nothing is checked and there is no exit on this path.
\<close>

definition main_CSVWriter ::
  "'s io_Writer \<Rightarrow> gostring \<Rightarrow> gostring \<Rightarrow> gostring \<Rightarrow> gostring \<Rightarrow> 's Writer" where
  "main_CSVWriter writerDest csvDelimiter csvQuote csvEscape csvTerminator =
     (let w0 = NewWriter writerDest;
          w1 = (if csvDelimiter = [0x5C, 0x74] then w0\<lparr>Delimiter := [0x09]\<rparr>
                else w0\<lparr>Delimiter := csvDelimiter\<rparr>);
          w2 = w1\<lparr>Quote := csvQuote\<rparr>;
          w3 = w2\<lparr>Escape := csvEscape\<rparr>
      in if csvTerminator = [0x5C, 0x72, 0x5C, 0x6E] then w3\<lparr>Terminator := [0x0D, 0x0A]\<rparr>
         else if csvTerminator = [0x5C, 0x6E] then w3\<lparr>Terminator := [0x0A]\<rparr>
         else w3\<lparr>Terminator := csvTerminator\<rparr>)"

text \<open>
  The earlier \<open>main\<close>, for the revision of the writer whose symbols are runes, takes each
  symbol with \<open>utf8.DecodeLastRuneInString\<close> and exits with status 1 when the returned
  size is 0. The functions of package \<open>unicode/utf8\<close> follow: \<open>first\<close> and \<open>acceptRanges\<close>
  are its tables, \<open>scan_back\<close> is the loop of \<open>DecodeLastRuneInString\<close> that looks for the
  start of the last rune, not further back than \<open>lim\<close>.
\<close>

definition RuneStart :: "byte \<Rightarrow> bool" where
  "RuneStart b = (b AND 0xC0 \<noteq> 0x80)"

definition first :: "byte \<Rightarrow> byte" where
  "first b =
     (if b \<le> 0x7F then 0xF0
      else if b \<le> 0xC1 then 0xF1
      else if b \<le> 0xDF then 0x02
      else if b = 0xE0 then 0x13
      else if b \<le> 0xEC then 0x03
      else if b = 0xED then 0x23
      else if b \<le> 0xEF then 0x03
      else if b = 0xF0 then 0x34
      else if b \<le> 0xF3 then 0x04
      else if b = 0xF4 then 0x44
      else 0xF1)"

definition acceptRanges :: "byte \<Rightarrow> byte \<times> byte" where
  "acceptRanges i =
     (if i = 0 then (0x80, 0xBF)
      else if i = 1 then (0xA0, 0xBF)
      else if i = 2 then (0x80, 0x9F)
      else if i = 3 then (0x90, 0xBF)
      else if i = 4 then (0x80, 0x8F)
      else (0, 0))"

definition utf8_DecodeRuneInString :: "gostring \<Rightarrow> rune \<times> nat" where
  "utf8_DecodeRuneInString s =
     (let n = length s in
      if n < 1 then (RuneError, 0)
      else
        (let s0 = s ! 0; x = first s0 in
         if x \<ge> 0xF0 then (if x = 0xF0 then (ucast s0, 1) else (RuneError, 1))
         else
           (let sz = unat (x AND 7); (lo, hi) = acceptRanges (drop_bit 4 x) in
            if n < sz then (RuneError, 1)
            else
              (let s1 = s ! 1 in
               if s1 < lo \<or> hi < s1 then (RuneError, 1)
               else if sz \<le> 2 then
                 (push_bit 6 (ucast (s0 AND 0x1F)) OR ucast (s1 AND 0x3F), 2)
               else
                 (let s2 = s ! 2 in
                  if s2 < 0x80 \<or> 0xBF < s2 then (RuneError, 1)
                  else if sz \<le> 3 then
                    (push_bit 12 (ucast (s0 AND 0x0F)) OR push_bit 6 (ucast (s1 AND 0x3F)) OR
                     ucast (s2 AND 0x3F), 3)
                  else
                    (let s3 = s ! 3 in
                     if s3 < 0x80 \<or> 0xBF < s3 then (RuneError, 1)
                     else
                       (push_bit 18 (ucast (s0 AND 0x07)) OR
                        push_bit 12 (ucast (s1 AND 0x3F)) OR
                        push_bit 6 (ucast (s2 AND 0x3F)) OR ucast (s3 AND 0x3F), 4)))))))"

function scan_back :: "gostring \<Rightarrow> int \<Rightarrow> int \<Rightarrow> int" where
  "scan_back s lim start =
     (if start \<ge> lim then
        (if RuneStart (s ! nat start) then start else scan_back s lim (start - 1))
      else start)"
  by pat_completeness auto
termination
  by (relation "measure (\<lambda>(s, lim, start). nat (start - lim + 1))") auto

declare scan_back.simps [simp del]

definition utf8_DecodeLastRuneInString :: "gostring \<Rightarrow> rune \<times> nat" where
  "utf8_DecodeLastRuneInString s =
     (let end = int (length s) in
      if end = 0 then (RuneError, 0)
      else
        (let start = end - 1; r = (ucast (s ! nat start) :: rune) in
         if r < 0x80 then (r, 1)
         else
           (let lim = (if end - 4 < 0 then 0 else end - 4);
                start1 = scan_back s lim (start - 1);
                start2 = (if start1 < 0 then 0 else start1);
                (r, sz) = utf8_DecodeRuneInString (drop (nat start2) s)
            in if start2 + int sz \<noteq> end then (RuneError, 1) else (r, sz))))"

text \<open>
  The writer of that revision and its \<open>NewWriter\<close>. In \<open>main_CSVWriter_rune\<close> the result
  \<open>Inl msg\<close> is the message printed before \<open>os.Exit(1)\<close>.
\<close>

record 's Writer_rune =
  Delimiter_r :: rune
  Quote_r :: rune
  Escape_r :: rune
  Terminator_r :: gostring
  w_bufio_r :: "'s bufio_Writer"

definition NewWriter_rune :: "'s io_Writer \<Rightarrow> 's Writer_rune" where
  "NewWriter_rune d =
     \<lparr>Delimiter_r = 0x2C, Quote_r = 0x22, Escape_r = 0x5C, Terminator_r = [0x0A],
      w_bufio_r = bufio_NewWriter d\<rparr>"

definition main_CSVWriter_rune ::
  "'s io_Writer \<Rightarrow> gostring \<Rightarrow> gostring \<Rightarrow> gostring \<Rightarrow> gostring \<Rightarrow>
     string + 's Writer_rune" where
  "main_CSVWriter_rune writerDest csvDelimiter csvQuote csvEscape csvTerminator =
     (let w0 = NewWriter_rune writerDest in
      case utf8_DecodeLastRuneInString csvDelimiter of
        (r1, i1) \<Rightarrow>
          (let w1 = w0\<lparr>Delimiter_r := r1\<rparr> in
           if i1 = 0 then Inl ''You must supply a valid delimiter character''
           else
             (case utf8_DecodeLastRuneInString csvQuote of
                (r2, i2) \<Rightarrow>
                  (let w2 = w1\<lparr>Quote_r := r2\<rparr> in
                   if i2 = 0 then Inl ''You must supply a valid quote character''
                   else
                     (case utf8_DecodeLastRuneInString csvEscape of
                        (r3, i3) \<Rightarrow>
                          (let w3 = w2\<lparr>Escape_r := r3\<rparr> in
                           if i3 = 0 then Inl ''You must supply a valid escape character''
                           else Inr (w3\<lparr>Terminator_r := csvTerminator\<rparr>)))))))"

section \<open>The earlier revision of the writer\<close>

text \<open>
  The revision of csv_writer.go whose symbols are runes, kept next to the current one. A
  field is a \<open>NullRawBytes\<close>, null when \<open>Valid\<close> is false. Its \<open>Write\<close> differs from the
  current one in four places: the null marker is the literal backslash, \<open>N\<close>; quoting is
  on when the quote rune is greater than 0; a delimiter byte is escaped when the quote rune
  is less than 0; and there is no case for the line feed. Runes are compared as signed
  32-bit integers (\<open>sint\<close>).
\<close>

record NullRawBytes =
  RawBytes :: "byte list"
  Valid :: bool

definition rWriteString :: "'s Writer_rune \<Rightarrow> gostring \<Rightarrow> error option \<times> 's Writer_rune" where
  "rWriteString w s =
     (case bufio_WriteString (w_bufio_r w) s of (_, e, b) \<Rightarrow> (e, w\<lparr>w_bufio_r := b\<rparr>))"

definition rWriteByte :: "'s Writer_rune \<Rightarrow> byte \<Rightarrow> error option \<times> 's Writer_rune" where
  "rWriteByte w f =
     (case bufio_WriteByte (w_bufio_r w) f of (e, b) \<Rightarrow> (e, w\<lparr>w_bufio_r := b\<rparr>))"

definition rWriteRune :: "'s Writer_rune \<Rightarrow> rune \<Rightarrow> error option \<times> 's Writer_rune" where
  "rWriteRune w r =
     (case bufio_WriteRune (w_bufio_r w) r of (_, e, b) \<Rightarrow> (e, w\<lparr>w_bufio_r := b\<rparr>))"

definition write_switch_rune :: "'s Writer_rune \<Rightarrow> byte \<Rightarrow> error option \<times> 's Writer_rune" where
  "write_switch_rune w byte =
     (let r = (ucast byte :: rune) in
      if r = Delimiter_r w then
        (if sint (Quote_r w) < 0 then
           (case rWriteRune w (Escape_r w) of (_, w1) \<Rightarrow> rWriteRune w1 (Delimiter_r w1))
         else rWriteRune w (Delimiter_r w))
      else if r = Quote_r w then
        (case rWriteRune w (Escape_r w) of (_, w1) \<Rightarrow> rWriteRune w1 (Quote_r w1))
      else if r = Escape_r w then
        (case rWriteRune w (Escape_r w) of (_, w1) \<Rightarrow> rWriteRune w1 (Escape_r w1))
      else if r = 0x00 then
        (case rWriteRune w (Escape_r w) of (_, w1) \<Rightarrow> rWriteRune w1 0x30)
      else rWriteByte w byte)"

fun write_field_bytes_rune :: "'s Writer_rune \<Rightarrow> byte list \<Rightarrow> error option \<times> 's Writer_rune" where
  "write_field_bytes_rune w [] = (None, w)"
| "write_field_bytes_rune w (byte # bytes) =
     (case write_switch_rune w byte of
        (e, w1) \<Rightarrow> if e \<noteq> None then (e, w1) else write_field_bytes_rune w1 bytes)"

fun write_fields_rune ::
  "'s Writer_rune \<Rightarrow> nat \<Rightarrow> NullRawBytes list \<Rightarrow> error option \<times> 's Writer_rune" where
  "write_fields_rune w n [] = (None, w)"
| "write_fields_rune w n (field # rest) =
     (case (if n > 0 then rWriteRune w (Delimiter_r w) else (None, w)) of
        (e1, w1) \<Rightarrow>
          if e1 \<noteq> None then (e1, w1)
          else if \<not> Valid field then
            (case rWriteString w1 [0x5C, 0x4E] of (_, w2) \<Rightarrow> write_fields_rune w2 (n + 1) rest)
          else
            (case (if sint (Quote_r w1) > 0 then rWriteRune w1 (Quote_r w1) else (None, w1)) of
               (e2, w2) \<Rightarrow>
                 if e2 \<noteq> None then (e2, w2)
                 else
                   (case write_field_bytes_rune w2 (RawBytes field) of
                      (e3, w3) \<Rightarrow>
                        if e3 \<noteq> None then (e3, w3)
                        else
                          (case (if sint (Quote_r w3) > 0 then rWriteRune w3 (Quote_r w3)
                                 else (None, w3)) of
                             (e4, w4) \<Rightarrow>
                               if e4 \<noteq> None then (e4, w4)
                               else write_fields_rune w4 (n + 1) rest))))"

definition Write_rune ::
  "'s Writer_rune \<Rightarrow> NullRawBytes list \<Rightarrow> nat \<times> error option \<times> 's Writer_rune" where
  "Write_rune w record =
     (case write_fields_rune w 0 record of
        (Some e, w1) \<Rightarrow> (0, Some e, w1)
      | (None, w1) \<Rightarrow>
          (case rWriteString w1 (Terminator_r w1) of
             (e, w2) \<Rightarrow> (Buffered (w_bufio_r w2), e, w2)))"

definition written_rune :: "'s Writer_rune \<Rightarrow> byte list" where
  "written_rune w = sent (b_wr (w_bufio_r w)) @ b_buf (w_bufio_r w)"

section \<open>The pipeline: \<open>readRows\<close> and \<open>writeCSV\<close>\<close>

text \<open>
  \<open>main\<close> starts \<open>readRows\<close> as a goroutine and runs \<open>writeCSV\<close> itself; the two share the
  unbuffered channels \<open>dataChan\<close>, \<open>goChan\<close> and \<open>quitChan\<close>. The model is a transition
  system over the joint state of the two: each goroutine has a place in its code, a step
  is one statement of one goroutine, and a send on an unbuffered channel together with the
  matching receive is one step of both. A \<open>log.Panic\<close> in \<open>checkErr\<close> ends the process
  (\<open>crashed\<close>), after which nothing steps.

  What \<open>dataChan\<close> carries is a slice, that is a reference to the sender's array: \<open>ref\<close>
  names the array (\<open>headers\<close> or \<open>vals\<close>), and the consumer reads the array's content at
  the moment it calls \<open>Write\<close>. \<open>rows.Scan\<close> stores the fetched row in \<open>vals\<close>, whatever
  was there before.
\<close>

definition flushBufferSize :: nat where
  "flushBufferSize = 26214400"

datatype ref = Ref_headers | Ref_vals

text \<open>
  Instrumentation: \<open>Data i\<close> is the row with index \<open>i\<close> of the result, \<open>Header\<close> the line
  of column names; the \<open>trace\<close> of a state lists, in order, the fetches, the sends on
  \<open>dataChan\<close>, the calls of \<open>Write\<close> with the record they read, and the signals on
  \<open>goChan\<close>.
\<close>

datatype label = Header | Data nat

datatype event =
    Fetched nat
  | Sent label
  | Encoded label "RawBytes list"
  | Advanced label

text \<open>
  The places in \<open>readRows\<close>: before \<open>dataChan <- headers\<close>; before the \<open><-goChan\<close> after
  it; at \<open>rows.Next()\<close>; before \<open>dataChan <- vals\<close>; before \<open><-goChan\<close>; before
  \<open>close(dataChan)\<close>; before \<open>quitChan <- true\<close>; returned. The places in \<open>writeCSV\<close> and
  the end of \<open>main\<close>: at \<open>range dataChan\<close>; holding \<open>data\<close> before \<open>w.Write(data)\<close>; before
  \<open>goChan <- true\<close>; after the loop, before the last \<open>w.Flush()\<close>; in \<open>main\<close> before
  \<open><-quitChan\<close>; past it.
\<close>

datatype readRows_at = P_header | P_header_go | P_next | P_send | P_go | P_close | P_quit | P_done

datatype writeCSV_at = C_range | C_Write ref label | C_go label | C_flush | C_quit | C_done

text \<open>
  The joint state. \<open>rows\<close> is what the cursor has not delivered yet and \<open>rows_Err\<close> the
  value of \<open>rows.Err()\<close> after the last row; \<open>fetched\<close> counts the rows fetched so far.
  The state starts after \<open>db.Query\<close> and \<open>rows.Columns\<close> have succeeded; \<open>rows.Scan\<close> into
  \<open>sql.RawBytes\<close> is taken not to fail.
\<close>

record 's pipeline =
  rows :: "RawBytes list list"
  rows_Err :: "error option"
  vals :: "RawBytes list"
  headers :: "RawBytes list"
  dataChan_closed :: bool
  readRows_pc :: readRows_at
  writeCSV_pc :: writeCSV_at
  csv :: "'s Writer"
  rowsWritten :: nat
  crashed :: bool
  fetched :: nat
  trace :: "event list"

definition pipeline_init ::
  "bool \<Rightarrow> gostring list \<Rightarrow> RawBytes list list \<Rightarrow> error option \<Rightarrow> 's Writer \<Rightarrow> 's pipeline" where
  "pipeline_init csvHeader cols rws err w =
     \<lparr>rows = rws, rows_Err = err, vals = replicate (length cols) None,
      headers = map Some cols, dataChan_closed = False,
      readRows_pc = (if csvHeader then P_header else P_next), writeCSV_pc = C_range,
      csv = w, rowsWritten = 0, crashed = False, fetched = 0, trace = []\<rparr>"

definition deref :: "'s pipeline \<Rightarrow> ref \<Rightarrow> RawBytes list" where
  "deref s r = (case r of Ref_headers \<Rightarrow> headers s | Ref_vals \<Rightarrow> vals s)"

text \<open>
  The body of the loop of \<open>writeCSV\<close> between the receive and the signal: \<open>w.Write(data)\<close>
  and \<open>checkErr\<close>, then \<open>w.Flush()\<close>, \<open>w.Error()\<close> and \<open>checkErr\<close> when the returned size
  exceeds \<open>flushBufferSize\<close>. \<open>Inl e\<close> is the panic of \<open>checkErr\<close>.
\<close>

definition flush_checked :: "'s Writer \<Rightarrow> (error + 's Writer) option" where
  "flush_checked w =
     (case Error (Flush w) of
        None \<Rightarrow> None
      | Some (Some e, _) \<Rightarrow> Some (Inl e)
      | Some (None, w') \<Rightarrow> Some (Inr w'))"

definition writeCSV_body :: "'s Writer \<Rightarrow> RawBytes list \<Rightarrow> (error + 's Writer) option" where
  "writeCSV_body w data =
     (case Write w data of
        (sz, Some e, _) \<Rightarrow> Some (Inl e)
      | (sz, None, w') \<Rightarrow> if sz > flushBufferSize then flush_checked w' else Some (Inr w'))"

inductive step :: "'s pipeline \<Rightarrow> 's pipeline \<Rightarrow> bool" where
  send_header:
    "\<not> crashed s \<Longrightarrow> readRows_pc s = P_header \<Longrightarrow> writeCSV_pc s = C_range \<Longrightarrow>
     step s (s\<lparr>readRows_pc := P_header_go, writeCSV_pc := C_Write Ref_headers Header,
               trace := trace s @ [Sent Header]\<rparr>)"
| next_row:
    "\<not> crashed s \<Longrightarrow> readRows_pc s = P_next \<Longrightarrow> rows s = r # rs \<Longrightarrow>
     step s (s\<lparr>rows := rs, vals := r, readRows_pc := P_send, fetched := fetched s + 1,
               trace := trace s @ [Fetched (fetched s)]\<rparr>)"
| next_end:
    "\<not> crashed s \<Longrightarrow> readRows_pc s = P_next \<Longrightarrow> rows s = [] \<Longrightarrow> rows_Err s = None \<Longrightarrow>
     step s (s\<lparr>readRows_pc := P_close\<rparr>)"
| next_panic:
    "\<not> crashed s \<Longrightarrow> readRows_pc s = P_next \<Longrightarrow> rows s = [] \<Longrightarrow> rows_Err s = Some e \<Longrightarrow>
     step s (s\<lparr>crashed := True\<rparr>)"
| send_row:
    "\<not> crashed s \<Longrightarrow> readRows_pc s = P_send \<Longrightarrow> writeCSV_pc s = C_range \<Longrightarrow>
     step s (s\<lparr>readRows_pc := P_go, writeCSV_pc := C_Write Ref_vals (Data (fetched s - 1)),
               trace := trace s @ [Sent (Data (fetched s - 1))]\<rparr>)"
| write_row:
    "\<not> crashed s \<Longrightarrow> writeCSV_pc s = C_Write r l \<Longrightarrow>
     writeCSV_body (csv s) (deref s r) = Some (Inr w') \<Longrightarrow>
     step s (s\<lparr>csv := w', rowsWritten := rowsWritten s + 1, writeCSV_pc := C_go l,
               trace := trace s @ [Encoded l (deref s r)]\<rparr>)"
| write_panic:
    "\<not> crashed s \<Longrightarrow> writeCSV_pc s = C_Write r l \<Longrightarrow>
     writeCSV_body (csv s) (deref s r) = Some (Inl e) \<Longrightarrow>
     step s (s\<lparr>crashed := True\<rparr>)"
| advance:
    "\<not> crashed s \<Longrightarrow> writeCSV_pc s = C_go l \<Longrightarrow>
     readRows_pc s = P_header_go \<or> readRows_pc s = P_go \<Longrightarrow>
     step s (s\<lparr>readRows_pc := P_next, writeCSV_pc := C_range,
               trace := trace s @ [Advanced l]\<rparr>)"
| close:
    "\<not> crashed s \<Longrightarrow> readRows_pc s = P_close \<Longrightarrow>
     step s (s\<lparr>dataChan_closed := True, readRows_pc := P_quit\<rparr>)"
| range_end:
    "\<not> crashed s \<Longrightarrow> writeCSV_pc s = C_range \<Longrightarrow> dataChan_closed s \<Longrightarrow>
     step s (s\<lparr>writeCSV_pc := C_flush\<rparr>)"
| last_flush:
    "\<not> crashed s \<Longrightarrow> writeCSV_pc s = C_flush \<Longrightarrow> flush_checked (csv s) = Some (Inr w') \<Longrightarrow>
     step s (s\<lparr>csv := w', writeCSV_pc := C_quit\<rparr>)"
| last_panic:
    "\<not> crashed s \<Longrightarrow> writeCSV_pc s = C_flush \<Longrightarrow> flush_checked (csv s) = Some (Inl e) \<Longrightarrow>
     step s (s\<lparr>crashed := True\<rparr>)"
| quit:
    "\<not> crashed s \<Longrightarrow> readRows_pc s = P_quit \<Longrightarrow> writeCSV_pc s = C_quit \<Longrightarrow>
     step s (s\<lparr>readRows_pc := P_done, writeCSV_pc := C_done\<rparr>)"

section \<open>Observations on the writer\<close>

text \<open>
  The definitions of this section are not code of the program: they name what the proofs
  observe. A destination is \<open>accepting\<close> when its \<open>Write\<close> always takes every byte and
  returns no error (as \<open>bytes.Buffer\<close> does); a buffered writer is \<open>healthy\<close> when it has
  recorded no error and its destination is accepting. \<open>appended b b' s\<close> says that \<open>b'\<close>
  is healthy, that the bytes \<open>s\<close> were added to what \<open>b\<close> had produced, and that
  they simply went to the end of the buffer when there was room for them.
\<close>

definition accepting :: "'s io_Writer \<Rightarrow> bool" where
  "accepting d = (\<forall>s p. \<exists>s'. wr_Write d s p = (length p, None, s'))"

definition healthy :: "'s bufio_Writer \<Rightarrow> bool" where
  "healthy b = (b_err b = None \<and> accepting (b_wr b))"

definition stream :: "'s bufio_Writer \<Rightarrow> byte list" where
  "stream b = sent (b_wr b) @ b_buf b"

definition appended :: "'s bufio_Writer \<Rightarrow> 's bufio_Writer \<Rightarrow> byte list \<Rightarrow> bool" where
  "appended b b' s =
     (healthy b' \<and> stream b' = stream b @ s \<and>
      (length (b_buf b) + length s \<le> defaultBufSize \<longrightarrow> b' = b\<lparr>b_buf := b_buf b @ s\<rparr>))"

definition emit_byte :: "'s Writer \<Rightarrow> byte \<Rightarrow> byte list" where
  "emit_byte w f =
     (let s = string_of_byte f in
      if s = Delimiter w then (if Quote w = [] then Escape w @ Delimiter w else Delimiter w)
      else if s = Quote w then Escape w @ Quote w
      else if s = Escape w then Escape w @ Escape w
      else if s = string_of_byte 0x00 then Escape w @ [0x30]
      else if s = string_of_byte 0x0A then Escape w @ [f]
      else [f])"

definition emit_field :: "'s Writer \<Rightarrow> RawBytes \<Rightarrow> byte list" where
  "emit_field w field =
     (case field of
        None \<Rightarrow> Escape w @ [0x4E]
      | Some bs \<Rightarrow> Quote w @ concat (map (emit_byte w) bs) @ Quote w)"

fun emit_fields :: "'s Writer \<Rightarrow> nat \<Rightarrow> RawBytes list \<Rightarrow> byte list" where
  "emit_fields w n [] = []"
| "emit_fields w n (field # rest) =
     (if n > 0 then Delimiter w else []) @ emit_field w field @ emit_fields w (n + 1) rest"

definition emit_record :: "'s Writer \<Rightarrow> RawBytes list \<Rightarrow> byte list" where
  "emit_record w record = emit_fields w 0 record @ Terminator w"

definition healthy_Writer :: "'s Writer \<Rightarrow> bool" where
  "healthy_Writer w = healthy (w_bufio w)"

definition extends :: "'s Writer \<Rightarrow> 's Writer \<Rightarrow> byte list \<Rightarrow> bool" where
  "extends w w' s =
     ((\<exists>b. w' = w\<lparr>w_bufio := b\<rparr>) \<and> healthy_Writer w' \<and> written w' = written w @ s \<and>
      (length (b_buf (w_bufio w)) + length s \<le> defaultBufSize \<longrightarrow>
         w_bufio w' = (w_bufio w)\<lparr>b_buf := b_buf (w_bufio w) @ s\<rparr>))"

definition call_err :: "byte list \<times> nat \<times> error option \<Rightarrow> error option" where
  "call_err c =
     (case c of (p, n, e) \<Rightarrow> if n < length p \<and> e = None then Some ErrShortWrite else e)"

fun first_failure :: "(byte list \<times> nat \<times> error option) list \<Rightarrow> error option" where
  "first_failure [] = None"
| "first_failure (c # cs) = (case call_err c of Some e \<Rightarrow> Some e | None \<Rightarrow> first_failure cs)"

definition err_recorded :: "'s bufio_Writer \<Rightarrow> bool" where
  "err_recorded b = (b_err b = first_failure (wr_calls (b_wr b)))"

definition evolves :: "'s bufio_Writer \<Rightarrow> 's bufio_Writer \<Rightarrow> bool" where
  "evolves b b' =
     ((b_err b \<noteq> None \<longrightarrow> b' = b) \<and> (err_recorded b \<longrightarrow> err_recorded b') \<and>
      wr_Write (b_wr b') = wr_Write (b_wr b))"

definition w_evolves :: "'s Writer \<Rightarrow> 's Writer \<Rightarrow> bool" where
  "w_evolves w w' = (\<exists>b. w' = w\<lparr>w_bufio := b\<rparr> \<and> evolves (w_bufio w) b)"

text \<open>
  The states a writer can be in: made by \<open>NewWriter\<close> on a destination that has received
  no call yet, its exported symbols set by the caller, and then used through \<open>Write\<close> and
  \<open>Flush\<close> (\<open>Error\<close> changes nothing, see \<open>Error_returns\<close>).
\<close>

inductive reachable :: "'s Writer \<Rightarrow> bool" where
  new: "wr_calls d = [] \<Longrightarrow> reachable (NewWriter d)"
| config: "reachable w \<Longrightarrow>
     reachable (w\<lparr>Delimiter := d, Quote := q, Escape := e, Terminator := t\<rparr>)"
| Write: "reachable w \<Longrightarrow> reachable (snd (snd (Write w rcd)))"
| Flush: "reachable w \<Longrightarrow> reachable (Flush w)"

text \<open>Strings joined by a separator, for stating what a line of output is.\<close>

fun joined :: "byte list \<Rightarrow> byte list list \<Rightarrow> byte list" where
  "joined sep [] = []"
| "joined sep [x] = x"
| "joined sep (x # y # ys) = x @ sep @ joined sep (y # ys)"

text \<open>
  For the pipeline: \<open>precedes a b tr\<close> says that every occurrence of the event \<open>b\<close> in the
  trace has an occurrence of \<open>a\<close> before it; \<open>encoded_rows\<close> lists the records \<open>Write\<close> was
  called with. \<open>pipeline_inv\<close> and \<open>output_inv\<close> are the invariants of the proofs.
\<close>

definition precedes :: "event \<Rightarrow> event \<Rightarrow> event list \<Rightarrow> bool" where
  "precedes a b tr = (\<forall>xs ys. tr = xs @ b # ys \<longrightarrow> a \<in> set xs)"

definition holds_row :: "'s pipeline \<Rightarrow> bool" where
  "holds_row s = (readRows_pc s = P_send \<or> readRows_pc s = P_go)"

definition pipeline_inv :: "gostring list \<Rightarrow> RawBytes list list \<Rightarrow> 's pipeline \<Rightarrow> bool" where
  "pipeline_inv cols rws s =
     (rows s = drop (fetched s) rws \<and> fetched s \<le> length rws \<and>
      headers s = map Some cols \<and>
      (holds_row s \<longrightarrow> 0 < fetched s \<and> vals s = rws ! (fetched s - 1)) \<and>
      (readRows_pc s = P_header \<longrightarrow> fetched s = 0 \<and> writeCSV_pc s = C_range) \<and>
      (readRows_pc s = P_header_go \<longrightarrow>
         fetched s = 0 \<and>
         (writeCSV_pc s = C_Write Ref_headers Header \<or> writeCSV_pc s = C_go Header)) \<and>
      (readRows_pc s = P_next \<longrightarrow> writeCSV_pc s = C_range) \<and>
      (readRows_pc s = P_send \<longrightarrow> writeCSV_pc s = C_range) \<and>
      (readRows_pc s = P_go \<longrightarrow>
         (writeCSV_pc s = C_Write Ref_vals (Data (fetched s - 1)) \<or>
          writeCSV_pc s = C_go (Data (fetched s - 1)))) \<and>
      (readRows_pc s = P_close \<longrightarrow> writeCSV_pc s = C_range) \<and>
      (readRows_pc s = P_quit \<longrightarrow>
         (writeCSV_pc s = C_range \<or> writeCSV_pc s = C_flush \<or> writeCSV_pc s = C_quit)) \<and>
      (readRows_pc s = P_done \<longrightarrow> writeCSV_pc s = C_done) \<and>
      (dataChan_closed s \<longrightarrow> readRows_pc s = P_quit \<or> readRows_pc s = P_done) \<and>
      (readRows_pc s = P_close \<or> readRows_pc s = P_quit \<or> readRows_pc s = P_done \<longrightarrow>
         fetched s = length rws) \<and>
      (\<forall>i. Fetched i \<in> set (trace s) \<longleftrightarrow> i < fetched s) \<and>
      (\<forall>i. Advanced (Data i) \<in> set (trace s) \<longleftrightarrow>
           i < (if holds_row s then fetched s - 1 else fetched s)) \<and>
      (\<forall>i. Sent (Data i) \<in> set (trace s) \<longrightarrow> i < fetched s) \<and>
      (\<forall>i. precedes (Advanced (Data i)) (Fetched (Suc i)) (trace s)) \<and>
      (\<forall>i. precedes (Advanced (Data i)) (Sent (Data (Suc i))) (trace s)) \<and>
      (\<forall>i. precedes (Fetched i) (Sent (Data i)) (trace s)) \<and>
      (\<forall>i bs. Encoded (Data i) bs \<in> set (trace s) \<longrightarrow> i < length rws \<and> bs = rws ! i) \<and>
      (\<forall>bs. Encoded Header bs \<in> set (trace s) \<longrightarrow> bs = map Some cols))"

fun encoded_rows :: "event list \<Rightarrow> RawBytes list list" where
  "encoded_rows [] = []"
| "encoded_rows (Encoded l bs # tr) = bs # encoded_rows tr"
| "encoded_rows (_ # tr) = encoded_rows tr"

definition output_inv ::
  "bool \<Rightarrow> gostring list \<Rightarrow> RawBytes list list \<Rightarrow> 's Writer \<Rightarrow> 's pipeline \<Rightarrow> bool" where
  "output_inv csvHeader cols rws w s =
     (healthy_Writer (csv s) \<and> (\<exists>b. csv s = w\<lparr>w_bufio := b\<rparr>) \<and>
      written (csv s) = written w @ concat (map (emit_record w) (encoded_rows (trace s))) \<and>
      (\<not> csvHeader \<longrightarrow> readRows_pc s \<noteq> P_header \<and> readRows_pc s \<noteq> P_header_go) \<and>
      encoded_rows (trace s) =
        (if csvHeader \<and> readRows_pc s \<noteq> P_header \<and> writeCSV_pc s \<noteq> C_Write Ref_headers Header
         then [map Some cols] else []) @
        take (if readRows_pc s = P_send \<or>
                 (readRows_pc s = P_go \<and> writeCSV_pc s = C_Write Ref_vals (Data (fetched s - 1)))
              then fetched s - 1 else fetched s) rws)"

section \<open>Properties of the buffered writer and of the encoder\<close>

lemma dest_Write_accepting:
  assumes "accepting d"
  shows "\<exists>d'. dest_Write d p = (length p, None, d') \<and> accepting d' \<and> sent d' = sent d @ p"
proof -
  from assms obtain s' where "wr_Write d (wr_state d) p = (length p, None, s')"
    unfolding accepting_def by blast
  then show ?thesis using assms
    by (simp add: dest_Write_def accepting_def sent_def)
qed

lemma Flush_healthy:
  assumes "healthy b"
  shows "\<exists>b'. bufio_Flush b = (None, b') \<and> healthy b' \<and> stream b' = stream b \<and> b_buf b' = []"
proof (cases "b_buf b = []")
  case True
  with assms show ?thesis by (simp add: bufio_Flush_def healthy_def)
next
  case False
  from assms have acc: "accepting (b_wr b)" and e: "b_err b = None" by (simp_all add: healthy_def)
  from dest_Write_accepting [OF acc, of "b_buf b"] obtain d' where
    d: "dest_Write (b_wr b) (b_buf b) = (length (b_buf b), None, d')" "accepting d'"
       "sent d' = sent (b_wr b) @ b_buf b" by blast
  show ?thesis using False e d
    by (simp add: bufio_Flush_def healthy_def stream_def)
qed

lemma WriteString_loop_healthy:
  "healthy b \<Longrightarrow> \<exists>b'. WriteString_loop b s nn = (nn + length s, None, b') \<and> appended b b' s"
proof (induction b s nn rule: WriteString_loop.induct)
  case (1 b s nn)
  show ?case
  proof (cases "length s > Available b")
    case True
    define n where "n = min (Available b) (length s)"
    define b1 where "b1 = b\<lparr>b_buf := b_buf b @ take n s\<rparr>"
    from 1(2) have e: "b_err b = None" and h1: "healthy b1" by (simp_all add: healthy_def b1_def)
    from Flush_healthy [OF h1] obtain b2 where
      b2: "bufio_Flush b1 = (None, b2)" "healthy b2" "stream b2 = stream b1" by blast
    then have h2: "healthy (snd (bufio_Flush b1))" by simp
    from "1.IH" [OF _ n_def b1_def h2] True e
    obtain b' where r: "WriteString_loop (snd (bufio_Flush b1)) (drop n s) (nn + n) =
        (nn + n + length (drop n s), None, b')" "appended (snd (bufio_Flush b1)) b' (drop n s)"
      by auto
    have n: "n \<le> length s" by (simp add: n_def)
    have "stream b1 = stream b @ take n s" by (simp add: stream_def b1_def)
    moreover have "\<not> length (b_buf b) + length s \<le> defaultBufSize"
      using True by (simp add: Available_def)
    ultimately have "appended b b' s" using b2 r
      by (simp add: appended_def)
    moreover have "WriteString_loop b s nn = (nn + length s, None, b')"
      using True e r(1) n by (subst WriteString_loop.simps) (simp add: n_def [symmetric] b1_def [symmetric] Let_def)
    ultimately show ?thesis by blast
  next
    case False
    with 1(2) show ?thesis
      by (subst WriteString_loop.simps) (simp add: healthy_def appended_def stream_def)
  qed
qed

lemma WriteString_healthy:
  "healthy b \<Longrightarrow> \<exists>b'. bufio_WriteString b s = (length s, None, b') \<and> appended b b' s"
  using WriteString_loop_healthy [of b s 0] by (simp add: bufio_WriteString_def)

lemma WriteByte_healthy:
  assumes "healthy b"
  shows "\<exists>b'. bufio_WriteByte b c = (None, b') \<and> appended b b' [c]"
proof (cases "Available b \<le> 0")
  case True
  from Flush_healthy [OF assms] obtain b1 where
    "bufio_Flush b = (None, b1)" "healthy b1" "stream b1 = stream b" by blast
  with True assms show ?thesis
    by (simp add: bufio_WriteByte_def healthy_def appended_def stream_def Available_def)
next
  case False
  with assms show ?thesis
    by (simp add: bufio_WriteByte_def healthy_def appended_def stream_def)
qed

lemma WriteRune_healthy:
  assumes "healthy b" and "r < 0x80"
  shows "\<exists>b'. bufio_WriteRune b r = (1, None, b') \<and> appended b b' [ucast r]"
  using WriteByte_healthy [OF assms(1), of "ucast r"] assms(2)
  by (auto simp: bufio_WriteRune_def)

lemma written_stream: "written w = stream (w_bufio w)"
  by (simp add: written_def stream_def)

lemma extends_trans:
  assumes 1: "extends w w1 s1" and 2: "extends w1 w2 s2"
  shows "extends w w2 (s1 @ s2)"
proof -
  from 1 obtain b1 where w1: "w1 = w\<lparr>w_bufio := b1\<rparr>" by (auto simp: extends_def)
  from 2 obtain b2 where w2: "w2 = w1\<lparr>w_bufio := b2\<rparr>" by (auto simp: extends_def)
  have "w2 = w\<lparr>w_bufio := b2\<rparr>" using w1 w2 by simp
  then have a: "\<exists>b. w2 = w\<lparr>w_bufio := b\<rparr>" ..
  have b: "healthy_Writer w2" "written w2 = written w @ s1 @ s2"
    using 1 2 by (simp_all add: extends_def)
  have c: "w_bufio w2 = (w_bufio w)\<lparr>b_buf := b_buf (w_bufio w) @ s1 @ s2\<rparr>"
    if "length (b_buf (w_bufio w)) + length (s1 @ s2) \<le> defaultBufSize"
  proof -
    from that 1 have x: "w_bufio w1 = (w_bufio w)\<lparr>b_buf := b_buf (w_bufio w) @ s1\<rparr>"
      by (simp add: extends_def)
    with that have "length (b_buf (w_bufio w1)) + length s2 \<le> defaultBufSize" by simp
    with 2 have "w_bufio w2 = (w_bufio w1)\<lparr>b_buf := b_buf (w_bufio w1) @ s2\<rparr>"
      by (simp add: extends_def)
    with x show ?thesis by simp
  qed
  from a b c show ?thesis unfolding extends_def by blast
qed

lemma extends_refl: "healthy_Writer w \<Longrightarrow> extends w w []"
  unfolding extends_def by (auto intro: exI [of _ "w_bufio w"])

lemma extends_symbols:
  assumes "extends w w' s"
  shows "Delimiter w' = Delimiter w" "Quote w' = Quote w" "Escape w' = Escape w"
    "Terminator w' = Terminator w" "healthy_Writer w'"
  using assms by (auto simp: extends_def)

lemma emit_byte_upd [simp]: "emit_byte (w\<lparr>w_bufio := b\<rparr>) = emit_byte w"
  by (simp add: emit_byte_def fun_eq_iff Let_def)

lemma emit_field_upd [simp]: "emit_field (w\<lparr>w_bufio := b\<rparr>) = emit_field w"
  by (simp add: emit_field_def fun_eq_iff split: option.splits)

lemma emit_fields_upd [simp]: "emit_fields (w\<lparr>w_bufio := b\<rparr>) n fs = emit_fields w n fs"
  by (induction fs arbitrary: n) simp_all

lemma emit_byte_cong: "extends w w' s \<Longrightarrow> emit_byte w' = emit_byte w"
  unfolding extends_def by (elim conjE exE) simp

lemma emit_fields_cong: "extends w w' s \<Longrightarrow> emit_fields w' n fs = emit_fields w n fs"
  unfolding extends_def by (elim conjE exE) simp

lemma wWriteString_healthy:
  assumes "healthy_Writer w"
  shows "\<exists>w'. wWriteString w s = (None, w') \<and> extends w w' s"
proof -
  from assms WriteString_healthy [of "w_bufio w" s] obtain b' where
    "bufio_WriteString (w_bufio w) s = (length s, None, b')" "appended (w_bufio w) b' s"
    by (auto simp: healthy_Writer_def)
  then show ?thesis
    by (auto simp: wWriteString_def extends_def healthy_Writer_def appended_def written_stream)
qed

lemma wWriteByte_healthy:
  assumes "healthy_Writer w"
  shows "\<exists>w'. wWriteByte w f = (None, w') \<and> extends w w' [f]"
proof -
  from assms WriteByte_healthy [of "w_bufio w" f] obtain b' where
    "bufio_WriteByte (w_bufio w) f = (None, b')" "appended (w_bufio w) b' [f]"
    by (auto simp: healthy_Writer_def)
  then show ?thesis
    by (auto simp: wWriteByte_def extends_def healthy_Writer_def appended_def written_stream)
qed

lemma wWriteRune_healthy:
  assumes "healthy_Writer w" and "r < 0x80"
  shows "\<exists>w'. wWriteRune w r = (None, w') \<and> extends w w' [ucast r]"
proof -
  from assms WriteRune_healthy [of "w_bufio w" r] obtain b' where
    "bufio_WriteRune (w_bufio w) r = (1, None, b')" "appended (w_bufio w) b' [ucast r]"
    by (auto simp: healthy_Writer_def)
  then show ?thesis
    by (auto simp: wWriteRune_def extends_def healthy_Writer_def appended_def written_stream)
qed

lemma write_switch_healthy:
  assumes h: "healthy_Writer w"
  shows "\<exists>w'. write_switch w f = (None, w') \<and> extends w w' (emit_byte w f)"
proof -
  have esc: "\<exists>w'. (case wWriteString w (Escape w) of (_, w1) \<Rightarrow> wWriteString w1 (X w1)) = (None, w')
      \<and> extends w w' (Escape w @ X w)"
    if X: "\<And>v s. extends w v s \<Longrightarrow> X v = X w" for X :: "'a Writer \<Rightarrow> gostring"
  proof -
    from wWriteString_healthy [OF h, of "Escape w"] obtain w1 where
      a: "wWriteString w (Escape w) = (None, w1)" "extends w w1 (Escape w)" by blast
    from wWriteString_healthy [OF extends_symbols(5) [OF a(2)], of "X w1"] obtain w2 where
      b: "wWriteString w1 (X w1) = (None, w2)" "extends w1 w2 (X w1)" by blast
    from a b X [OF a(2)] show ?thesis by (auto intro: extends_trans)
  qed
  have escR: "\<exists>w'. (case wWriteString w (Escape w) of (_, w1) \<Rightarrow> wWriteRune w1 0x30) = (None, w')
      \<and> extends w w' (Escape w @ [0x30])"
  proof -
    from wWriteString_healthy [OF h, of "Escape w"] obtain w1 where
      a: "wWriteString w (Escape w) = (None, w1)" "extends w w1 (Escape w)" by blast
    from wWriteRune_healthy [OF extends_symbols(5) [OF a(2)], of "0x30"] obtain w2 where
      b: "wWriteRune w1 0x30 = (None, w2)" "extends w1 w2 [0x30]" by auto
    from a b show ?thesis by (auto intro: extends_trans)
  qed
  have escB: "\<exists>w'. (case wWriteString w (Escape w) of (_, w1) \<Rightarrow> wWriteByte w1 f) = (None, w')
      \<and> extends w w' (Escape w @ [f])"
  proof -
    from wWriteString_healthy [OF h, of "Escape w"] obtain w1 where
      a: "wWriteString w (Escape w) = (None, w1)" "extends w w1 (Escape w)" by blast
    from wWriteByte_healthy [OF extends_symbols(5) [OF a(2)], of f] obtain w2 where
      b: "wWriteByte w1 f = (None, w2)" "extends w1 w2 [f]" by blast
    from a b show ?thesis by (auto intro: extends_trans)
  qed
  have escD: "\<exists>w'. (case wWriteString w (Escape w) of (_, w1) \<Rightarrow> wWriteString w1 (Delimiter w1))
      = (None, w') \<and> extends w w' (Escape w @ Delimiter w)"
    by (rule esc) (rule extends_symbols)
  have escQ: "\<exists>w'. (case wWriteString w (Escape w) of (_, w1) \<Rightarrow> wWriteString w1 (Quote w1))
      = (None, w') \<and> extends w w' (Escape w @ Quote w)"
    by (rule esc) (rule extends_symbols)
  have escE: "\<exists>w'. (case wWriteString w (Escape w) of (_, w1) \<Rightarrow> wWriteString w1 (Escape w1))
      = (None, w') \<and> extends w w' (Escape w @ Escape w)"
    by (rule esc) (rule extends_symbols)
  let ?s = "string_of_byte f"
  show ?thesis
  proof (cases "?s = Delimiter w")
    case d: True
    show ?thesis
    proof (cases "Quote w = []")
      case True
      with d escD show ?thesis by (simp add: write_switch_def emit_byte_def Let_def)
    next
      case False
      with d wWriteString_healthy [OF h, of "Delimiter w"] show ?thesis
        by (simp add: write_switch_def emit_byte_def Let_def)
    qed
  next
    case d: False
    show ?thesis
    proof (cases "?s = Quote w")
      case True
      with d escQ show ?thesis by (simp add: write_switch_def emit_byte_def Let_def)
    next
      case q: False
      show ?thesis
      proof (cases "?s = Escape w")
        case True
        with d q escE show ?thesis by (simp add: write_switch_def emit_byte_def Let_def)
      next
        case e: False
        show ?thesis
        proof (cases "?s = string_of_byte 0x00")
          case True
          with d q e escR show ?thesis by (simp add: write_switch_def emit_byte_def Let_def)
        next
          case z: False
          show ?thesis
          proof (cases "?s = string_of_byte 0x0A")
            case True
            with d q e z escB show ?thesis by (simp add: write_switch_def emit_byte_def Let_def)
          next
            case False
            with d q e z wWriteByte_healthy [OF h, of f] show ?thesis
              by (simp add: write_switch_def emit_byte_def Let_def)
          qed
        qed
      qed
    qed
  qed
qed

lemma write_field_bytes_healthy:
  "healthy_Writer w \<Longrightarrow>
     \<exists>w'. write_field_bytes w fs = (None, w') \<and> extends w w' (concat (map (emit_byte w) fs))"
proof (induction fs arbitrary: w)
  case Nil
  then show ?case by (simp add: extends_refl)
next
  case (Cons f fs)
  from write_switch_healthy [OF Cons.prems, of f] obtain w1 where
    a: "write_switch w f = (None, w1)" "extends w w1 (emit_byte w f)" by blast
  from Cons.IH [OF extends_symbols(5) [OF a(2)]] obtain w2 where
    b: "write_field_bytes w1 fs = (None, w2)" "extends w1 w2 (concat (map (emit_byte w1) fs))"
    by blast
  from a b show ?case by (auto simp: emit_byte_cong [OF a(2)] intro: extends_trans)
qed

lemma write_fields_healthy:
  "healthy_Writer w \<Longrightarrow>
     \<exists>w'. write_fields w n fs = (None, w') \<and> extends w w' (emit_fields w n fs)"
proof (induction fs arbitrary: w n)
  case Nil
  then show ?case by (simp add: extends_refl)
next
  case (Cons field rest)
  let ?d = "if n > 0 then Delimiter w else []"
  have "\<exists>w1. (if n > 0 then wWriteString w (Delimiter w) else (None, w)) = (None, w1)
          \<and> extends w w1 ?d"
    using wWriteString_healthy [OF Cons.prems, of "Delimiter w"] extends_refl [OF Cons.prems]
    by simp
  then obtain w1 where
    d: "(if n > 0 then wWriteString w (Delimiter w) else (None, w)) = (None, w1)"
       "extends w w1 ?d" by blast
  note h1 = extends_symbols(5) [OF d(2)]
  have "\<exists>w4. (case field of
               None \<Rightarrow>
                 (case wWriteString w1 (Escape w1) of
                    (_, w2) \<Rightarrow>
                      (case wWriteString w2 [0x4E] of
                         (_, w3) \<Rightarrow> write_fields w3 (n + 1) rest))
             | Some bs \<Rightarrow>
                 (case (if Quote w1 \<noteq> [] then wWriteString w1 (Quote w1) else (None, w1)) of
                    (e2, w2) \<Rightarrow>
                      if e2 \<noteq> None then (e2, w2)
                      else
                        (case write_field_bytes w2 bs of
                           (e3, w3) \<Rightarrow>
                             if e3 \<noteq> None then (e3, w3)
                             else
                               (case (if Quote w3 \<noteq> [] then wWriteString w3 (Quote w3)
                                      else (None, w3)) of
                                  (e4, w4) \<Rightarrow>
                                    if e4 \<noteq> None then (e4, w4)
                                    else write_fields w4 (n + 1) rest)))) = (None, w4)
           \<and> extends w1 w4 (emit_field w1 field @ emit_fields w1 (n + 1) rest)"
  proof (cases field)
    case None
    from wWriteString_healthy [OF h1, of "Escape w1"] obtain w2 where
      a: "wWriteString w1 (Escape w1) = (None, w2)" "extends w1 w2 (Escape w1)" by blast
    from wWriteString_healthy [OF extends_symbols(5) [OF a(2)], of "[0x4E]"] obtain w3 where
      b: "wWriteString w2 [0x4E] = (None, w3)" "extends w2 w3 [0x4E]" by blast
    have e13: "extends w1 w3 (Escape w1 @ [0x4E])" by (rule extends_trans [OF a(2) b(2)])
    from Cons.IH [OF extends_symbols(5) [OF b(2)], of "n + 1"] obtain w4 where
      c: "write_fields w3 (n + 1) rest = (None, w4)"
         "extends w3 w4 (emit_fields w3 (n + 1) rest)" by blast
    have "extends w1 w4 ((Escape w1 @ [0x4E]) @ emit_fields w1 (n + 1) rest)"
      using extends_trans [OF e13 c(2)] by (simp only: emit_fields_cong [OF e13])
    with None a b c show ?thesis by (simp add: emit_field_def)
  next
    case (Some bs)
    let ?q = "Quote w1"
    have "\<exists>w2. (if ?q \<noteq> [] then wWriteString w1 ?q else (None, w1)) = (None, w2)
            \<and> extends w1 w2 ?q"
      using wWriteString_healthy [OF h1, of ?q] extends_refl [OF h1] by auto
    then obtain w2 where
      a: "(if ?q \<noteq> [] then wWriteString w1 ?q else (None, w1)) = (None, w2)"
         "extends w1 w2 ?q" by blast
    note h2 = extends_symbols(5) [OF a(2)]
    from write_field_bytes_healthy [OF h2, of bs] obtain w3 where
      b: "write_field_bytes w2 bs = (None, w3)"
         "extends w2 w3 (concat (map (emit_byte w1) bs))"
      by (auto simp: emit_byte_cong [OF a(2)])
    note e13 = extends_trans [OF a(2) b(2)]
    note h3 = extends_symbols(5) [OF b(2)]
    have q3: "Quote w3 = ?q" using extends_symbols(2) [OF e13] .
    have "\<exists>w4. (if Quote w3 \<noteq> [] then wWriteString w3 (Quote w3) else (None, w3)) = (None, w4)
            \<and> extends w3 w4 ?q"
      using wWriteString_healthy [OF h3, of "Quote w3"] extends_refl [OF h3] q3 by auto
    then obtain w4 where
      c: "(if Quote w3 \<noteq> [] then wWriteString w3 (Quote w3) else (None, w3)) = (None, w4)"
         "extends w3 w4 ?q" by blast
    note e14 = extends_trans [OF e13 c(2)]
    from Cons.IH [OF extends_symbols(5) [OF c(2)], of "n + 1"] obtain w5 where
      d5: "write_fields w4 (n + 1) rest = (None, w5)"
         "extends w4 w5 (emit_fields w4 (n + 1) rest)" by blast
    have "extends w1 w5 (((?q @ concat (map (emit_byte w1) bs)) @ ?q) @ emit_fields w1 (n + 1) rest)"
      using extends_trans [OF e14 d5(2)] by (simp only: emit_fields_cong [OF e14])
    with Some a b c d5 show ?thesis by (simp add: emit_field_def)
  qed
  then obtain w4 where r: "(case field of
               None \<Rightarrow>
                 (case wWriteString w1 (Escape w1) of
                    (_, w2) \<Rightarrow>
                      (case wWriteString w2 [0x4E] of
                         (_, w3) \<Rightarrow> write_fields w3 (n + 1) rest))
             | Some bs \<Rightarrow>
                 (case (if Quote w1 \<noteq> [] then wWriteString w1 (Quote w1) else (None, w1)) of
                    (e2, w2) \<Rightarrow>
                      if e2 \<noteq> None then (e2, w2)
                      else
                        (case write_field_bytes w2 bs of
                           (e3, w3) \<Rightarrow>
                             if e3 \<noteq> None then (e3, w3)
                             else
                               (case (if Quote w3 \<noteq> [] then wWriteString w3 (Quote w3)
                                      else (None, w3)) of
                                  (e4, w4) \<Rightarrow>
                                    if e4 \<noteq> None then (e4, w4)
                                    else write_fields w4 (n + 1) rest)))) = (None, w4)"
     "extends w1 w4 (emit_field w1 field @ emit_fields w1 (n + 1) rest)" by blast
  obtain b1 where w1: "w1 = w\<lparr>w_bufio := b1\<rparr>" using d(2) by (auto simp: extends_def)
  have "extends w w4 (?d @ emit_field w field @ emit_fields w (n + 1) rest)"
    using extends_trans [OF d(2) r(2)] by (simp add: w1)
  moreover have "write_fields w n (field # rest) = (None, w4)"
    by (simp only: write_fields.simps d r(1) prod.case) simp
  ultimately show ?case by simp
qed

lemma Write_healthy:
  assumes "healthy_Writer w"
  shows "\<exists>w'. Write w record = (Buffered (w_bufio w'), None, w') \<and>
              extends w w' (emit_record w record)"
proof -
  from write_fields_healthy [OF assms, of 0 "record"] obtain w1 where
    a: "write_fields w 0 record = (None, w1)" "extends w w1 (emit_fields w 0 record)" by blast
  from wWriteString_healthy [OF extends_symbols(5) [OF a(2)], of "Terminator w1"] obtain w2 where
    b: "wWriteString w1 (Terminator w1) = (None, w2)" "extends w1 w2 (Terminator w1)" by blast
  have "extends w w2 (emit_record w record)"
    using extends_trans [OF a(2) b(2)] extends_symbols(4) [OF a(2)] by (simp add: emit_record_def)
  with a b show ?thesis by (simp add: Write_def)
qed

lemma evolves_refl: "evolves b b"
  by (simp add: evolves_def)

lemma evolves_trans: "evolves b b1 \<Longrightarrow> evolves b1 b2 \<Longrightarrow> evolves b b2"
  by (auto simp: evolves_def)

lemma first_failure_append:
  "first_failure (cs @ [c]) = (case first_failure cs of Some e \<Rightarrow> Some e | None \<Rightarrow> call_err c)"
  by (induction cs) (auto split: option.splits)

lemma evolves_buf: "evolves b (b\<lparr>b_buf := x\<rparr>) \<longleftrightarrow> (b_err b \<noteq> None \<longrightarrow> x = b_buf b)"
  by (auto simp: evolves_def err_recorded_def dest: arg_cong [where f = b_buf])

lemma Flush_evolves:
  "evolves b (snd (bufio_Flush b)) \<and> fst (bufio_Flush b) = b_err (snd (bufio_Flush b))"
proof (cases "b_err b = None \<and> b_buf b \<noteq> []")
  case False
  then show ?thesis by (auto simp: bufio_Flush_def evolves_refl)
next
  case True
  obtain n e s' where c: "wr_Write (b_wr b) (wr_state (b_wr b)) (b_buf b) = (n, e, s')"
    by (cases "wr_Write (b_wr b) (wr_state (b_wr b)) (b_buf b)")
  show ?thesis using True c
    by (auto simp: bufio_Flush_def dest_Write_def evolves_def err_recorded_def
        first_failure_append call_err_def Let_def)
qed

lemma WriteString_loop_evolves:
  "WriteString_loop b s nn = (k, e, b') \<Longrightarrow> evolves b b' \<and> e = b_err b'"
proof (induction b s nn arbitrary: k e b' rule: WriteString_loop.induct)
  case (1 b s nn)
  show ?case
  proof (cases "length s > Available b \<and> b_err b = None")
    case True
    define n where "n = min (Available b) (length s)"
    define b1 where "b1 = b\<lparr>b_buf := b_buf b @ take n s\<rparr>"
    from True "1.prems" have r: "WriteString_loop (snd (bufio_Flush b1)) (drop n s) (nn + n) = (k, e, b')"
      by (subst (asm) WriteString_loop.simps) (simp add: n_def b1_def Let_def)
    from "1.IH" [OF True n_def b1_def r] have "evolves (snd (bufio_Flush b1)) b'" "e = b_err b'"
      by simp_all
    moreover have "evolves b b1" using True by (simp add: b1_def evolves_buf)
    moreover have "evolves b1 (snd (bufio_Flush b1))" using Flush_evolves by blast
    ultimately show ?thesis by (blast intro: evolves_trans)
  next
    case False
    with "1.prems" show ?thesis
      by (subst (asm) WriteString_loop.simps) (auto simp: evolves_refl evolves_buf split: if_splits)
  qed
qed

lemma WriteString_evolves:
  "bufio_WriteString b s = (k, e, b') \<Longrightarrow> evolves b b' \<and> e = b_err b'"
  unfolding bufio_WriteString_def by (rule WriteString_loop_evolves)

lemma WriteByte_evolves:
  assumes "bufio_WriteByte b c = (e, b')"
  shows "evolves b b' \<and> e = b_err b'"
proof (cases "b_err b = None \<and> Available b \<le> 0")
  case True
  obtain e1 b1 where f: "bufio_Flush b = (e1, b1)" by (cases "bufio_Flush b")
  with Flush_evolves [of b] have 1: "evolves b b1" "e1 = b_err b1" by simp_all
  show ?thesis
  proof (cases "e1 = None")
    case True
    then have "evolves b1 (b1\<lparr>b_buf := b_buf b1 @ [c]\<rparr>)" using 1 by (simp add: evolves_buf)
    with assms f 1 True \<open>b_err b = None \<and> Available b \<le> 0\<close> show ?thesis
      by (auto simp: bufio_WriteByte_def intro: evolves_trans)
  next
    case False
    with assms f 1 \<open>b_err b = None \<and> Available b \<le> 0\<close> show ?thesis
      by (auto simp: bufio_WriteByte_def)
  qed
next
  case False
  with assms show ?thesis
    by (auto simp: bufio_WriteByte_def evolves_refl evolves_buf split: if_splits)
qed

lemma WriteRune_evolves:
  assumes "bufio_WriteRune b r = (k, e, b')"
  shows "evolves b b' \<and> e = b_err b'"
proof (cases "r < 0x80")
  case True
  obtain e1 b1 where f: "bufio_WriteByte b (ucast r) = (e1, b1)"
    by (cases "bufio_WriteByte b (ucast r)")
  from WriteByte_evolves [OF f] assms True f show ?thesis
    by (auto simp: bufio_WriteRune_def split: if_splits)
next
  case big: False
  show ?thesis
  proof (cases "b_err b = None \<and> Available b < 4")
    case True
    obtain e1 b1 where f: "bufio_Flush b = (e1, b1)" by (cases "bufio_Flush b")
    with Flush_evolves [of b] have 1: "evolves b b1" "e1 = b_err b1" by simp_all
    show ?thesis
    proof (cases "b_err b1 = None \<and> Available b1 < 4")
      case True
      with assms big f \<open>b_err b = None \<and> Available b < 4\<close>
      have "bufio_WriteString b1 (utf8_EncodeRune r) = (k, e, b')"
        by (simp add: bufio_WriteRune_def)
      from WriteString_evolves [OF this] 1 show ?thesis by (blast intro: evolves_trans)
    next
      case False
      have "b_err b1 = None \<Longrightarrow> evolves b1 (b1\<lparr>b_buf := b_buf b1 @ utf8_EncodeRune r\<rparr>)"
        by (simp add: evolves_buf)
      with False assms big f 1 \<open>b_err b = None \<and> Available b < 4\<close> show ?thesis
        by (auto simp: bufio_WriteRune_def intro: evolves_trans split: if_splits)
    qed
  next
    case False
    with assms big show ?thesis
      by (auto simp: bufio_WriteRune_def evolves_refl evolves_buf split: if_splits)
  qed
qed

lemma w_evolves_refl: "w_evolves w w"
  unfolding w_evolves_def by (rule exI [of _ "w_bufio w"]) (simp add: evolves_refl)

lemma w_evolves_trans:
  assumes "w_evolves w w1" and "w_evolves w1 w2"
  shows "w_evolves w w2"
proof -
  from assms(1) obtain b1 where 1: "w1 = w\<lparr>w_bufio := b1\<rparr>" "evolves (w_bufio w) b1"
    by (auto simp: w_evolves_def)
  from assms(2) obtain b2 where 2: "w2 = w1\<lparr>w_bufio := b2\<rparr>" "evolves (w_bufio w1) b2"
    by (auto simp: w_evolves_def)
  from 1 2 have "w2 = w\<lparr>w_bufio := b2\<rparr>" "evolves (w_bufio w) b2"
    by (auto intro: evolves_trans)
  then show ?thesis unfolding w_evolves_def by blast
qed

lemma w_evolves_symbols:
  assumes "w_evolves w w'"
  shows "Delimiter w' = Delimiter w" "Quote w' = Quote w" "Escape w' = Escape w"
    "Terminator w' = Terminator w"
  using assms by (auto simp: w_evolves_def)

lemma wWriteString_evolves:
  "wWriteString w s = (e, w') \<Longrightarrow> w_evolves w w' \<and> e = b_err (w_bufio w')"
  by (auto simp: wWriteString_def w_evolves_def split: prod.splits dest: WriteString_evolves)

lemma wWriteByte_evolves:
  "wWriteByte w f = (e, w') \<Longrightarrow> w_evolves w w' \<and> e = b_err (w_bufio w')"
  by (auto simp: wWriteByte_def w_evolves_def split: prod.splits dest: WriteByte_evolves)

lemma wWriteRune_evolves:
  "wWriteRune w r = (e, w') \<Longrightarrow> w_evolves w w' \<and> e = b_err (w_bufio w')"
  by (auto simp: wWriteRune_def w_evolves_def split: prod.splits dest: WriteRune_evolves)

lemma seq_evolves:
  assumes f: "\<And>e v'. f w = (e, v') \<Longrightarrow> w_evolves w v'"
    and g: "\<And>v e v'. g v = (e, v') \<Longrightarrow> w_evolves v v' \<and> e = b_err (w_bufio v')"
    and r: "(case f w of (_, w1) \<Rightarrow> g w1) = (e, w')"
  shows "w_evolves w w' \<and> e = b_err (w_bufio w')"
proof -
  obtain e1 w1 where 1: "f w = (e1, w1)" by (cases "f w")
  with r have 2: "g w1 = (e, w')" by simp
  from f [OF 1] g [OF 2] show ?thesis by (blast intro: w_evolves_trans)
qed

lemma write_switch_evolves:
  assumes r: "write_switch w f = (e, w')"
  shows "w_evolves w w' \<and> e = b_err (w_bufio w')"
proof -
  have esc: "\<And>e v'. wWriteString w (Escape w) = (e, v') \<Longrightarrow> w_evolves w v'"
    by (simp add: wWriteString_evolves)
  have two: "w_evolves w w' \<and> e = b_err (w_bufio w')"
    if "\<And>v e v'. g v = (e, v') \<Longrightarrow> w_evolves v v' \<and> e = b_err (w_bufio v')"
      and "(case wWriteString w (Escape w) of (_, w1) \<Rightarrow> g w1) = (e, w')"
    for g :: "'a Writer \<Rightarrow> error option \<times> 'a Writer"
  proof -
    obtain e1 w1 where 1: "wWriteString w (Escape w) = (e1, w1)"
      by (cases "wWriteString w (Escape w)")
    with that(2) have 2: "g w1 = (e, w')" by simp
    from wWriteString_evolves [OF 1] that(1) [OF 2] show ?thesis
      by (blast intro: w_evolves_trans)
  qed
  let ?s = "string_of_byte f"
  show ?thesis
  proof (cases "?s = Delimiter w")
    case d: True
    show ?thesis
    proof (cases "Quote w = []")
      case True
      with d r have "(case wWriteString w (Escape w) of (_, w1) \<Rightarrow> wWriteString w1 (Delimiter w1)) = (e, w')"
        by (simp add: write_switch_def Let_def)
      then show ?thesis by (rule two [rotated]) (rule wWriteString_evolves)
    next
      case False
      with d r have "wWriteString w (Delimiter w) = (e, w')"
        by (simp add: write_switch_def Let_def)
      then show ?thesis by (rule wWriteString_evolves)
    qed
  next
    case d: False
    show ?thesis
    proof (cases "?s = Quote w")
      case True
      with d r have "(case wWriteString w (Escape w) of (_, w1) \<Rightarrow> wWriteString w1 (Quote w1)) = (e, w')"
        by (simp add: write_switch_def Let_def)
      then show ?thesis by (rule two [rotated]) (rule wWriteString_evolves)
    next
      case q: False
      show ?thesis
      proof (cases "?s = Escape w")
        case True
        with d q r have "(case wWriteString w (Escape w) of (_, w1) \<Rightarrow> wWriteString w1 (Escape w1)) = (e, w')"
          by (simp add: write_switch_def Let_def)
        then show ?thesis by (rule two [rotated]) (rule wWriteString_evolves)
      next
        case e: False
        show ?thesis
        proof (cases "?s = string_of_byte 0x00")
          case True
          with d q e r have "(case wWriteString w (Escape w) of (_, w1) \<Rightarrow> wWriteRune w1 0x30) = (e, w')"
            by (simp add: write_switch_def Let_def)
          then show ?thesis by (rule two [rotated]) (rule wWriteRune_evolves)
        next
          case z: False
          show ?thesis
          proof (cases "?s = string_of_byte 0x0A")
            case True
            with d q e z r have "(case wWriteString w (Escape w) of (_, w1) \<Rightarrow> wWriteByte w1 f) = (e, w')"
              by (simp add: write_switch_def Let_def)
            then show ?thesis by (rule two [rotated]) (rule wWriteByte_evolves)
          next
            case False
            with d q e z r have "wWriteByte w f = (e, w')"
              by (simp add: write_switch_def Let_def)
            then show ?thesis by (rule wWriteByte_evolves)
          qed
        qed
      qed
    qed
  qed
qed

lemma write_field_bytes_evolves:
  "write_field_bytes w fs = (e, w') \<Longrightarrow>
     w_evolves w w' \<and> (e \<noteq> None \<longrightarrow> e = b_err (w_bufio w'))"
proof (induction fs arbitrary: w)
  case Nil
  then show ?case by (simp add: w_evolves_refl)
next
  case (Cons f fs)
  obtain e1 w1 where 1: "write_switch w f = (e1, w1)" by (cases "write_switch w f")
  note a = write_switch_evolves [OF 1]
  show ?case
  proof (cases "e1 = None")
    case True
    with Cons.prems 1 have "write_field_bytes w1 fs = (e, w')" by simp
    from Cons.IH [OF this] a show ?thesis by (blast intro: w_evolves_trans)
  next
    case False
    with Cons.prems 1 a show ?thesis by auto
  qed
qed

text \<open>An optional write: the delimiter before a field, the quote around it.\<close>

lemma opt_write_evolves:
  "(if c then wWriteString w s else (None, w)) = (e, w') \<Longrightarrow>
     w_evolves w w' \<and> (e \<noteq> None \<longrightarrow> e = b_err (w_bufio w'))"
  by (auto split: if_splits simp: w_evolves_refl dest: wWriteString_evolves)

lemma write_fields_evolves:
  "write_fields w n fs = (e, w') \<Longrightarrow>
     w_evolves w w' \<and> (e \<noteq> None \<longrightarrow> e = b_err (w_bufio w'))"
proof (induction fs arbitrary: w n)
  case Nil
  then show ?case by (simp add: w_evolves_refl)
next
  case (Cons field rest)
  obtain e1 w1 where 1: "(if n > 0 then wWriteString w (Delimiter w) else (None, w)) = (e1, w1)"
    by (cases "if n > 0 then wWriteString w (Delimiter w) else (None, w)")
  note a = opt_write_evolves [OF 1]
  show ?case
  proof (cases "e1 = None")
    case False
    with Cons.prems 1 have "e = e1" "w' = w1" by simp_all
    with a False show ?thesis by blast
  next
    case e1: True
    show ?thesis
    proof (cases field)
      case None
      obtain x2 w2 where 2: "wWriteString w1 (Escape w1) = (x2, w2)"
        by (cases "wWriteString w1 (Escape w1)")
      obtain x3 w3 where 3: "wWriteString w2 [0x4E] = (x3, w3)"
        by (cases "wWriteString w2 [0x4E]")
      from Cons.prems 1 e1 None 2 3 have "write_fields w3 (n + 1) rest = (e, w')" by simp
      from Cons.IH [OF this] a wWriteString_evolves [OF 2] wWriteString_evolves [OF 3]
      show ?thesis by (blast intro: w_evolves_trans)
    next
      case (Some bs)
      obtain e2 w2 where 2: "(if Quote w1 \<noteq> [] then wWriteString w1 (Quote w1) else (None, w1)) = (e2, w2)"
        by (cases "if Quote w1 \<noteq> [] then wWriteString w1 (Quote w1) else (None, w1)")
      note b = opt_write_evolves [OF 2]
      show ?thesis
      proof (cases "e2 = None")
        case False
        with Cons.prems 1 e1 Some 2 have "e = e2" "w' = w2" by simp_all
        with a b False show ?thesis by (blast intro: w_evolves_trans)
      next
        case e2: True
        obtain e3 w3 where 3: "write_field_bytes w2 bs = (e3, w3)"
          by (cases "write_field_bytes w2 bs")
        note c = write_field_bytes_evolves [OF 3]
        show ?thesis
        proof (cases "e3 = None")
          case False
          with Cons.prems 1 e1 Some 2 e2 3 have "e = e3" "w' = w3" by simp_all
          with a b c False show ?thesis by (blast intro: w_evolves_trans)
        next
          case e3: True
          obtain e4 w4 where 4: "(if Quote w3 \<noteq> [] then wWriteString w3 (Quote w3) else (None, w3)) = (e4, w4)"
            by (cases "if Quote w3 \<noteq> [] then wWriteString w3 (Quote w3) else (None, w3)")
          note d = opt_write_evolves [OF 4]
          show ?thesis
          proof (cases "e4 = None")
            case False
            with Cons.prems 1 e1 Some 2 e2 3 e3 4 have "e = e4" "w' = w4" by simp_all
            with a b c d False show ?thesis by (blast intro: w_evolves_trans)
          next
            case e4: True
            with Cons.prems 1 e1 Some 2 e2 3 e3 4 have "write_fields w4 (n + 1) rest = (e, w')"
              by simp
            note r = Cons.IH [OF this]
            from a b have "w_evolves w w2" by (blast intro: w_evolves_trans)
            with c d have "w_evolves w w4" by (blast intro: w_evolves_trans)
            with r show ?thesis by (blast intro: w_evolves_trans)
          qed
        qed
      qed
    qed
  qed
qed

lemma Write_evolves:
  assumes "Write w record = (n, e, w')"
  shows "w_evolves w w' \<and> e = b_err (w_bufio w')"
proof -
  obtain e1 w1 where 1: "write_fields w 0 record = (e1, w1)"
    by (cases "write_fields w 0 record")
  note a = write_fields_evolves [OF 1]
  show ?thesis
  proof (cases e1)
    case (Some x)
    with assms 1 a show ?thesis by (auto simp: Write_def)
  next
    case None
    obtain e2 w2 where 2: "wWriteString w1 (Terminator w1) = (e2, w2)"
      by (cases "wWriteString w1 (Terminator w1)")
    with assms 1 None have "e = e2" "w' = w2" by (simp_all add: Write_def)
    with a wWriteString_evolves [OF 2] show ?thesis by (blast intro: w_evolves_trans)
  qed
qed

lemma Flush_w_evolves: "w_evolves w (Flush w)"
  unfolding w_evolves_def Flush_def using Flush_evolves by blast

lemma Error_returns: "Error w = Some (b_err (w_bufio w), w)"
  by (simp add: Error_def bufio_Write_def Write_loop.simps)

lemma bufio_Flush_idem: "bufio_Flush (snd (bufio_Flush b)) = (fst (bufio_Flush b), snd (bufio_Flush b))"
  by (auto simp: bufio_Flush_def Let_def split: prod.splits)

lemma emit_fields_append:
  "emit_fields w n (pre @ field # post) =
     emit_fields w n pre @ (if n + length pre > 0 then Delimiter w else []) @
     emit_field w field @ emit_fields w (n + length pre + 1) post"
  by (induction pre arbitrary: n) simp_all

lemma accepting_bytes_Buffer: "accepting bytes_Buffer"
  by (simp add: accepting_def bytes_Buffer_def)

lemma healthy_NewWriter: "accepting d \<Longrightarrow> healthy_Writer (NewWriter d)"
  by (simp add: healthy_Writer_def healthy_def NewWriter_def bufio_NewWriter_def)

lemma unat_ucast_byte: "unat (ucast (f :: byte) :: rune) = unat f"
proof -
  have "unat f < 2 ^ 32" using unsigned_less [of f, where ?'a = nat] by simp
  then show ?thesis by (simp add: unsigned_ucast_eq take_bit_nat_eq_self)
qed

lemma ucast_byte_le: "(ucast (f :: byte) :: rune) \<le> 0x7F \<longleftrightarrow> f < 0x80"
  by (simp add: word_le_nat_alt word_less_nat_alt unat_ucast_byte) arith

lemma ucast_byte_le2: "(ucast (f :: byte) :: rune) \<le> 0x7FF"
proof -
  have "unat f < 256" using unsigned_less [of f, where ?'a = nat] by simp
  then show ?thesis by (simp add: word_le_nat_alt unat_ucast_byte)
qed

lemma ucast_ucast_byte: "(ucast (ucast (f :: byte) :: rune) :: byte) = f"
  by (simp add: ucast_up_ucast_id is_up)

lemma sob_ascii: "f < 0x80 \<Longrightarrow> string_of_byte f = [f]"
  by (simp add: string_of_byte_def utf8_EncodeRune_def ucast_byte_le ucast_ucast_byte)

lemma sob_high: "\<not> f < 0x80 \<Longrightarrow> length (string_of_byte f) = 2"
  by (simp add: string_of_byte_def utf8_EncodeRune_def ucast_byte_le ucast_byte_le2)

lemma sob_single: "string_of_byte f = [c] \<longleftrightarrow> f = c \<and> c < 0x80"
proof (cases "f < 0x80")
  case True
  then show ?thesis by (auto simp: sob_ascii)
next
  case False
  from sob_high [OF this] show ?thesis using False by auto
qed

lemma sob_0: "string_of_byte 0 = [0]" and sob_LF: "string_of_byte 0x0A = [0x0A]"
  by (simp_all add: sob_ascii)


lemma healthy_upd:
  "healthy_Writer (w\<lparr>Delimiter := d\<rparr>) = healthy_Writer w"
  "healthy_Writer (w\<lparr>Quote := q\<rparr>) = healthy_Writer w"
  "healthy_Writer (w\<lparr>Escape := e\<rparr>) = healthy_Writer w"
  "healthy_Writer (w\<lparr>Terminator := t\<rparr>) = healthy_Writer w"
  by (simp_all add: healthy_Writer_def)

lemma written_NewWriter: "written (NewWriter bytes_Buffer) = []"
  by (simp add: written_def NewWriter_def bufio_NewWriter_def bytes_Buffer_def sent_def)

lemma written_upd:
  "written (w\<lparr>Delimiter := d\<rparr>) = written w"
  "written (w\<lparr>Quote := q\<rparr>) = written w"
  "written (w\<lparr>Escape := e\<rparr>) = written w"
  "written (w\<lparr>Terminator := t\<rparr>) = written w"
  by (simp_all add: written_def)

lemma Write_written:
  assumes "healthy_Writer w"
  shows "\<exists>w'. Write w rcd = (Buffered (w_bufio w'), None, w') \<and> healthy_Writer w' \<and>
           written w' = written w @ emit_record w rcd"
  using Write_healthy [OF assms, of rcd] by (auto simp: extends_def)

lemma sob_eq_0: "string_of_byte f = string_of_byte 0 \<longleftrightarrow> f = 0"
  by (simp add: sob_0 sob_single)

lemma sob_eq_LF: "string_of_byte f = string_of_byte 0x0A \<longleftrightarrow> f = 0x0A"
  by (simp add: sob_LF sob_single)

lemma emit_byte_plain:
  assumes "string_of_byte f \<notin> {Delimiter w, Quote w, Escape w}" "f \<noteq> 0x00" "f \<noteq> 0x0A"
  shows "emit_byte w f = [f]"
  using assms by (simp add: emit_byte_def sob_eq_0 sob_eq_LF)

lemma concat_emit_plain:
  "\<forall>f\<in>set bs. emit_byte w f = [f] \<Longrightarrow> concat (map (emit_byte w) bs) = bs"
  by (induction bs) simp_all

lemma emit_fields_plain:
  assumes "\<forall>bs\<in>set fs. \<forall>f\<in>set bs.
             string_of_byte f \<notin> {Delimiter w, Quote w, Escape w} \<and> f \<noteq> 0x00 \<and> f \<noteq> 0x0A"
  shows "emit_fields w n (map Some fs) =
           (if n > 0 \<and> fs \<noteq> [] then Delimiter w else []) @
           joined (Delimiter w) (map (\<lambda>bs. Quote w @ bs @ Quote w) fs)"
  using assms
proof (induction fs arbitrary: n)
  case Nil
  then show ?case by simp
next
  case (Cons bs fs)
  have 1: "concat (map (emit_byte w) bs) = bs"
    using Cons.prems by (intro concat_emit_plain ballI emit_byte_plain) auto
  from Cons.prems have 2: "\<forall>bs\<in>set fs. \<forall>f\<in>set bs.
             string_of_byte f \<notin> {Delimiter w, Quote w, Escape w} \<and> f \<noteq> 0x00 \<and> f \<noteq> 0x0A"
    by simp
  have "emit_fields w n (map Some (bs # fs)) =
      (if n > 0 then Delimiter w else []) @ (Quote w @ bs @ Quote w) @
      emit_fields w (n + 1) (map Some fs)"
    by (simp add: emit_field_def 1)
  also have "emit_fields w (n + 1) (map Some fs) =
      (if fs \<noteq> [] then Delimiter w else []) @
      joined (Delimiter w) (map (\<lambda>bs. Quote w @ bs @ Quote w) fs)"
    using Cons.IH [OF 2, of "n + 1"] by simp
  finally show ?case by (cases fs) simp_all
qed

lemma emit_fields_at:
  "emit_fields w 0 (pre @ field # post) @ Terminator w =
     (emit_fields w 0 pre @ (if pre = [] then [] else Delimiter w)) @ emit_field w field @
     (emit_fields w (length pre + 1) post @ Terminator w)"
  by (simp add: emit_fields_append)

lemma first_failure_None: "first_failure cs = None \<longleftrightarrow> (\<forall>c\<in>set cs. call_err c = None)"
  by (induction cs) (auto split: option.splits)

lemma w_evolves_recorded:
  "w_evolves w w' \<Longrightarrow> err_recorded (w_bufio w) \<Longrightarrow> err_recorded (w_bufio w')"
  by (auto simp: w_evolves_def evolves_def)

lemma w_evolves_sticky: "w_evolves w w' \<Longrightarrow> b_err (w_bufio w) \<noteq> None \<Longrightarrow> w' = w"
  by (auto simp: w_evolves_def evolves_def)

lemma reachable_recorded: "reachable w \<Longrightarrow> err_recorded (w_bufio w)"
proof (induction rule: reachable.induct)
  case (new d)
  then show ?case by (simp add: err_recorded_def NewWriter_def bufio_NewWriter_def)
next
  case (config w d q e t)
  then show ?case by simp
next
  case (Write w rcd)
  obtain n e w' where r: "Write w rcd = (n, e, w')" by (cases "Write w rcd")
  from Write_evolves [OF r] Write.IH r show ?case by (auto dest: w_evolves_recorded)
next
  case (Flush w)
  from Flush_w_evolves [of w] Flush.IH show ?case by (rule w_evolves_recorded)
qed

lemma Write_Buffered:
  assumes "Write w rcd = (n, e, w')" and "e = None"
  shows "n = Buffered (w_bufio w')"
  using assms by (auto simp: Write_def split: prod.splits option.splits)

lemma Write_fits:
  assumes "healthy_Writer w"
    and "Buffered (w_bufio w) + length (emit_record w rcd) \<le> defaultBufSize"
  shows "fst (Write w rcd) = Buffered (w_bufio w) + length (emit_record w rcd)"
proof -
  from Write_healthy [OF assms(1), of rcd] obtain w' where
    1: "Write w rcd = (Buffered (w_bufio w'), None, w')"
       "extends w w' (emit_record w rcd)" by blast
  from 1(2) assms(2)
  have "w_bufio w' = (w_bufio w)\<lparr>b_buf := b_buf (w_bufio w) @ emit_record w rcd\<rparr>"
    by (simp add: extends_def Buffered_def)
  with 1(1) show ?thesis by (simp add: Buffered_def)
qed

lemma Flush_healthy_Writer:
  assumes "healthy_Writer w"
  shows "healthy_Writer (Flush w) \<and> Buffered (w_bufio (Flush w)) = 0 \<and>
         written (Flush w) = written w \<and> emit_record (Flush w) = emit_record w"
proof -
  from Flush_healthy [of "w_bufio w"] assms obtain b' where
    "bufio_Flush (w_bufio w) = (None, b')" "healthy b'" "stream b' = stream (w_bufio w)"
    "b_buf b' = []" by (auto simp: healthy_Writer_def)
  then show ?thesis
    by (simp add: Flush_def healthy_Writer_def Buffered_def written_stream fun_eq_iff
        emit_record_def)
qed

lemma scan_back_le: "scan_back s lim start \<le> start"
proof (induction s lim start rule: scan_back.induct)
  case (1 s lim start)
  then show ?case by (subst scan_back.simps) auto
qed

lemma size_check:
  "a < e \<Longrightarrow>
     0 < snd (case X of (r, sz) \<Rightarrow> if a + int sz \<noteq> e then (R, 1::nat) else (r, sz))"
  by (cases X) auto

lemma size_check0:
  "0 < n \<Longrightarrow> 0 < snd (case X of (r, sz) \<Rightarrow> if sz \<noteq> n then (R, 1::nat) else (r, sz))"
  by (cases X) auto

lemma DecodeLastRune_size: "snd (utf8_DecodeLastRuneInString s) = 0 \<longleftrightarrow> s = []"
proof (cases "s = []")
  case True
  then show ?thesis by (simp add: utf8_DecodeLastRuneInString_def)
next
  case False
  let ?e = "int (length s)"
  have "scan_back s lim (?e - 2) < ?e" for lim
    using scan_back_le [of s lim "?e - 2"] by simp
  then show ?thesis
    using False
    by (simp add: utf8_DecodeLastRuneInString_def Let_def size_check size_check0
        del: One_nat_def)
qed

lemma precedes_snoc:
  "precedes a b (tr @ [e]) \<longleftrightarrow> precedes a b tr \<and> (e = b \<longrightarrow> a \<in> set tr)"
proof
  assume p: "precedes a b (tr @ [e])"
  have "precedes a b tr"
    unfolding precedes_def
  proof (intro allI impI)
    fix xs ys assume "tr = xs @ b # ys"
    then have "tr @ [e] = xs @ b # (ys @ [e])" by simp
    with p show "a \<in> set xs" unfolding precedes_def by blast
  qed
  moreover have "a \<in> set tr" if "e = b"
  proof -
    from that have "tr @ [e] = tr @ b # []" by simp
    with p show ?thesis unfolding precedes_def by blast
  qed
  ultimately show "precedes a b tr \<and> (e = b \<longrightarrow> a \<in> set tr)" by blast
next
  assume h: "precedes a b tr \<and> (e = b \<longrightarrow> a \<in> set tr)"
  show "precedes a b (tr @ [e])"
    unfolding precedes_def
  proof (intro allI impI)
    fix xs ys assume eq: "tr @ [e] = xs @ b # ys"
    show "a \<in> set xs"
    proof (cases ys rule: rev_cases)
      case Nil
      with eq have "tr = xs" "e = b" by simp_all
      with h show ?thesis by simp
    next
      case (snoc ys' y)
      with eq have "tr @ [e] = (xs @ b # ys') @ [y]" by simp
      then have "tr = xs @ b # ys'" by (simp only: append1_eq_conv)
      with h show ?thesis unfolding precedes_def by blast
    qed
  qed
qed

lemma precedes_Nil: "precedes a b []"
  by (simp add: precedes_def)

lemma inv_init: "pipeline_inv cols rws (pipeline_init csvHeader cols rws err w)"
  by (simp add: pipeline_inv_def pipeline_init_def holds_row_def precedes_Nil)


lemma drop_Cons_nth:
  assumes "drop n xs = r # rs"
  shows "n < length xs" "xs ! n = r" "drop (Suc n) xs = rs"
proof -
  show 1: "n < length xs" using assms by (cases "n < length xs") simp_all
  from assms Cons_nth_drop_Suc [OF 1] show "xs ! n = r" "drop (Suc n) xs = rs" by simp_all
qed

lemma inv_crashed: "pipeline_inv cols rws (s\<lparr>crashed := x\<rparr>) = pipeline_inv cols rws s"
  by (simp add: pipeline_inv_def holds_row_def)

lemma inv_step:
  assumes "step s s'" and "pipeline_inv cols rws s"
  shows "pipeline_inv cols rws s'"
  using assms
proof (cases rule: step.cases)
  case send_header
  with assms(2) show ?thesis
    by (auto simp: pipeline_inv_def holds_row_def precedes_snoc)
next
  case (next_row r rs)
  with assms(2) have d: "drop (fetched s) rws = r # rs" by (simp add: pipeline_inv_def)
  note n = drop_Cons_nth [OF d]
  from next_row assms(2) n show ?thesis
    by (auto simp: pipeline_inv_def holds_row_def precedes_snoc less_Suc_eq)
next
  case next_end
  with assms(2) show ?thesis
    by (auto simp: pipeline_inv_def holds_row_def)
next
  case (next_panic e)
  with assms(2) show ?thesis
    by (simp add: inv_crashed)
next
  case send_row
  with assms(2) show ?thesis
    by (auto simp: pipeline_inv_def holds_row_def precedes_snoc)
next
  case (write_row r l w')
  with assms(2) show ?thesis
    by (cases "readRows_pc s")
      (auto simp: pipeline_inv_def holds_row_def precedes_snoc deref_def)
next
  case (write_panic r l e)
  with assms(2) show ?thesis
    by (simp add: inv_crashed)
next
  case (advance l)
  with assms(2) show ?thesis
    by (auto simp: pipeline_inv_def holds_row_def precedes_snoc less_Suc_eq)
next
  case close
  with assms(2) show ?thesis
    by (auto simp: pipeline_inv_def holds_row_def)
next
  case range_end
  with assms(2) show ?thesis
    by (auto simp: pipeline_inv_def holds_row_def)
next
  case (last_flush w')
  with assms(2) show ?thesis
    by (cases "readRows_pc s") (auto simp: pipeline_inv_def holds_row_def)
next
  case (last_panic e)
  with assms(2) show ?thesis
    by (simp add: inv_crashed)
next
  case quit
  with assms(2) show ?thesis
    by (auto simp: pipeline_inv_def holds_row_def)
qed


lemma inv_reachable:
  assumes "step\<^sup>*\<^sup>* (pipeline_init csvHeader cols rws err w) s"
  shows "pipeline_inv cols rws s"
  using assms by (induction rule: rtranclp_induct) (auto intro: inv_init inv_step)

lemma encoded_rows_snoc:
  "encoded_rows (tr @ [e]) = encoded_rows tr @ (case e of Encoded l bs \<Rightarrow> [bs] | _ \<Rightarrow> [])"
  by (induction tr rule: encoded_rows.induct) (auto split: event.splits)

lemma flush_checked_healthy:
  assumes "healthy_Writer w"
  shows "flush_checked w = Some (Inr (Flush w))"
  using Flush_healthy_Writer [OF assms]
  by (simp add: flush_checked_def Error_returns healthy_Writer_def healthy_def)

lemma writeCSV_body_healthy:
  assumes "healthy_Writer w"
  shows "\<exists>w'. writeCSV_body w d = Some (Inr w') \<and> healthy_Writer w' \<and>
           (\<exists>b. w' = w\<lparr>w_bufio := b\<rparr>) \<and> written w' = written w @ emit_record w d"
proof -
  from Write_healthy [OF assms, of d] obtain w1 where
    1: "Write w d = (Buffered (w_bufio w1), None, w1)" "extends w w1 (emit_record w d)" by blast
  from 1(2) obtain b1 where 2: "w1 = w\<lparr>w_bufio := b1\<rparr>" "healthy_Writer w1"
    "written w1 = written w @ emit_record w d" by (auto simp: extends_def)
  show ?thesis
  proof (cases "Buffered (w_bufio w1) > flushBufferSize")
    case True
    have "Flush w1 = w\<lparr>w_bufio := snd (bufio_Flush b1)\<rparr>" by (simp add: Flush_def 2(1))
    then have "\<exists>b. Flush w1 = w\<lparr>w_bufio := b\<rparr>" ..
    with True 1(1) 2 flush_checked_healthy [OF 2(2)] Flush_healthy_Writer [OF 2(2)]
    show ?thesis by (simp add: writeCSV_body_def)
  next
    case False
    from 2(1) have "\<exists>b. w1 = w\<lparr>w_bufio := b\<rparr>" ..
    with False 1(1) 2 show ?thesis by (simp add: writeCSV_body_def)
  qed
qed


lemma emit_record_upd [simp]: "emit_record (w\<lparr>w_bufio := b\<rparr>) = emit_record w"
  by (simp add: emit_record_def fun_eq_iff)

lemma output_inv_crashed:
  "output_inv csvHeader cols rws w (s\<lparr>crashed := x\<rparr>) = output_inv csvHeader cols rws w s"
  by (simp add: output_inv_def)

lemma output_init:
  "healthy_Writer w \<Longrightarrow>
     output_inv csvHeader cols rws w (pipeline_init csvHeader cols rws err w)"
  unfolding output_inv_def pipeline_init_def
  by (auto intro: exI [of _ "w_bufio w"])

lemma output_step:
  assumes "step s s'" and inv: "pipeline_inv cols rws s"
    and out: "output_inv csvHeader cols rws w s"
  shows "output_inv csvHeader cols rws w s'"
  using assms(1)
proof (cases rule: step.cases)
  case send_header
  with inv out show ?thesis
    by (auto simp: output_inv_def pipeline_inv_def encoded_rows_snoc)
next
  case (next_row r rs)
  with inv out show ?thesis
    by (auto simp: output_inv_def pipeline_inv_def encoded_rows_snoc)
next
  case next_end
  with inv out show ?thesis
    by (auto simp: output_inv_def pipeline_inv_def)
next
  case (next_panic e)
  with out show ?thesis by (simp add: output_inv_crashed)
next
  case send_row
  with inv out show ?thesis
    by (auto simp: output_inv_def pipeline_inv_def encoded_rows_snoc holds_row_def)
next
  case (write_row r l w')
  from out have h: "healthy_Writer (csv s)" and sh: "\<exists>b. csv s = w\<lparr>w_bufio := b\<rparr>"
    by (simp_all add: output_inv_def)
  from sh obtain b0 where b0: "csv s = w\<lparr>w_bufio := b0\<rparr>" ..
  from writeCSV_body_healthy [OF h, of "deref s r"] write_row(4) obtain b where
    w': "healthy_Writer w'" "w' = (csv s)\<lparr>w_bufio := b\<rparr>"
        "written w' = written (csv s) @ emit_record (csv s) (deref s r)" by auto
  from w'(2) b0 have "w' = w\<lparr>w_bufio := b\<rparr>" by simp
  then have shape: "\<exists>b. w' = w\<lparr>w_bufio := b\<rparr>" ..
  have er: "emit_record (csv s) = emit_record w" by (simp add: b0)
  from inv write_row(3) have pc: "(readRows_pc s = P_header_go \<and> r = Ref_headers \<and> l = Header) \<or>
      (readRows_pc s = P_go \<and> r = Ref_vals \<and> l = Data (fetched s - 1))"
    by (cases "readRows_pc s") (auto simp: pipeline_inv_def)
  then show ?thesis
  proof
    assume a: "readRows_pc s = P_header_go \<and> r = Ref_headers \<and> l = Header"
    with inv out write_row w' shape er show ?thesis
      by (auto simp: output_inv_def pipeline_inv_def encoded_rows_snoc deref_def)
  next
    assume a: "readRows_pc s = P_go \<and> r = Ref_vals \<and> l = Data (fetched s - 1)"
    with inv have n: "0 < fetched s" "fetched s \<le> length rws" "vals s = rws ! (fetched s - 1)"
      by (simp_all add: pipeline_inv_def holds_row_def)
    then have t: "take (fetched s - 1) rws @ [rws ! (fetched s - 1)] = take (fetched s) rws"
      using take_Suc_conv_app_nth [of "fetched s - 1" rws] by simp
    have t2: "concat (map (emit_record w) (take (fetched s) rws)) =
        concat (map (emit_record w) (take (fetched s - 1) rws)) @
        emit_record w (rws ! (fetched s - 1))"
      unfolding t [symmetric] by simp
    from n have t3: "take (fetched s - Suc 0) rws @ [rws ! (fetched s - Suc 0)] = take (fetched s) rws"
      using t by simp
    from a n t2 t3 out write_row w' shape er show ?thesis
      by (auto simp: output_inv_def encoded_rows_snoc deref_def)
  qed
next
  case (write_panic r l e)
  with out show ?thesis by (simp add: output_inv_crashed)
next
  case (advance l)
  with inv out show ?thesis
    by (auto simp: output_inv_def pipeline_inv_def encoded_rows_snoc)
next
  case close
  with inv out show ?thesis
    by (auto simp: output_inv_def pipeline_inv_def)
next
  case range_end
  with inv out show ?thesis
    by (auto simp: output_inv_def pipeline_inv_def)
next
  case (last_flush w')
  from out have h: "healthy_Writer (csv s)" and sh: "\<exists>b. csv s = w\<lparr>w_bufio := b\<rparr>"
    by (simp_all add: output_inv_def)
  from sh obtain b0 where b0: "csv s = w\<lparr>w_bufio := b0\<rparr>" ..
  from last_flush(4) flush_checked_healthy [OF h] have w': "w' = Flush (csv s)" by simp
  then have "w' = w\<lparr>w_bufio := snd (bufio_Flush b0)\<rparr>" by (simp add: Flush_def b0)
  then have shape: "\<exists>b. w' = w\<lparr>w_bufio := b\<rparr>" ..
  from Flush_healthy_Writer [OF h] w' have f: "healthy_Writer w'" "written w' = written (csv s)"
    by simp_all
  from last_flush inv out shape f show ?thesis
    by (cases "readRows_pc s") (auto simp: output_inv_def pipeline_inv_def)
next
  case (last_panic e)
  with out show ?thesis by (simp add: output_inv_crashed)
next
  case quit
  with inv out show ?thesis
    by (auto simp: output_inv_def pipeline_inv_def)
qed

lemma output_reachable:
  assumes "healthy_Writer w" and "step\<^sup>*\<^sup>* (pipeline_init csvHeader cols rws err w) s"
  shows "pipeline_inv cols rws s \<and> output_inv csvHeader cols rws w s"
  using assms(2)
proof (induction rule: rtranclp_induct)
  case base
  show ?case using inv_init output_init [OF assms(1)] by blast
next
  case (step y z)
  then show ?case using inv_step output_step by blast
qed

lemma pipeline_output:
  assumes "healthy_Writer w" and "step\<^sup>*\<^sup>* (pipeline_init csvHeader cols rws err w) s"
    and "writeCSV_pc s = C_done"
  shows "written (csv s) =
           written w @ (if csvHeader then emit_record w (map Some cols) else []) @
           concat (map (emit_record w) rws)"
proof -
  from output_reachable [OF assms(1,2)] have
    inv: "pipeline_inv cols rws s" and out: "output_inv csvHeader cols rws w s" by simp_all
  from inv assms(3) have p: "readRows_pc s = P_done"
    by (cases "readRows_pc s") (auto simp: pipeline_inv_def)
  with inv have n: "fetched s = length rws" by (simp add: pipeline_inv_def)
  from out p n assms(3) show ?thesis by (auto simp: output_inv_def)
qed

text \<open>
  The earlier revision on four inputs: the line of the specification's example under the
  defaults; a null field when the escape rune is \<open>!\<close> (the marker stays backslash, \<open>N\<close>);
  the field \<open>a,b\<close> when the quote rune is 0 (quoting off, the delimiter not escaped); and a
  line feed inside a field (written as it is).
\<close>

lemma Write_rune_defaults:
  "written_rune (snd (snd (Write_rune (NewWriter_rune bytes_Buffer)
      [\<lparr>RawBytes = [0x61, 0x62, 0x63], Valid = True\<rparr>, \<lparr>RawBytes = [], Valid = False\<rparr>,
       \<lparr>RawBytes = [0x61, 0x22, 0x62], Valid = True\<rparr>]))) =
   [0x22, 0x61, 0x62, 0x63, 0x22, 0x2C, 0x5C, 0x4E, 0x2C, 0x22, 0x61, 0x5C, 0x22, 0x62, 0x22, 0x0A]"
  by code_simp

lemma Write_rune_null_marker_fixed:
  "written_rune (snd (snd (Write_rune ((NewWriter_rune bytes_Buffer)\<lparr>Escape_r := 0x21\<rparr>)
      [\<lparr>RawBytes = [], Valid = False\<rparr>]))) = [0x5C, 0x4E, 0x0A]"
  by code_simp

lemma Write_rune_delimiter_unquoted:
  "written_rune (snd (snd (Write_rune ((NewWriter_rune bytes_Buffer)\<lparr>Quote_r := 0\<rparr>)
      [\<lparr>RawBytes = [0x61, 0x2C, 0x62], Valid = True\<rparr>]))) = [0x61, 0x2C, 0x62, 0x0A]"
  by code_simp

lemma Write_rune_line_feed:
  "written_rune (snd (snd (Write_rune (NewWriter_rune bytes_Buffer)
      [\<lparr>RawBytes = [0x61, 0x0A, 0x62], Valid = True\<rparr>]))) = [0x22, 0x61, 0x0A, 0x62, 0x22, 0x0A]"
  by code_simp

section \<open>The claims\<close>

text \<open>
  C2. A null field is written as the configured escape symbol followed by \<open>N\<close> (byte
  \<open>0x4E\<close>), with no quote around it, whatever the delimiter, quote and terminator are:
  in a record \<open>pre @ None # post\<close> written to a healthy writer the marker stands between
  what the fields before it and the fields after it produce (each with its delimiter), and
  it changes with the escape symbol.
\<close>

theorem Write_null_field:
  assumes "healthy_Writer w"
  shows "\<exists>w'. Write w (pre @ None # post) = (Buffered (w_bufio w'), None, w') \<and>
           written w' =
             written w @ emit_fields w 0 pre @ (if pre = [] then [] else Delimiter w) @
             (Escape w @ [0x4E]) @ emit_fields w (length pre + 1) post @ Terminator w"
proof -
  from Write_healthy [OF assms, of "pre @ None # post"] obtain w' where
    1: "Write w (pre @ None # post) = (Buffered (w_bufio w'), None, w')"
       "extends w w' (emit_record w (pre @ None # post))" by blast
  from 1(2) have "written w' = written w @ emit_record w (pre @ None # post)"
    by (simp add: extends_def)
  then have "written w' =
             written w @ emit_fields w 0 pre @ (if pre = [] then [] else Delimiter w) @
             (Escape w @ [0x4E]) @ emit_fields w (length pre + 1) post @ Terminator w"
    by (simp add: emit_record_def emit_fields_append emit_field_def)
  with 1(1) show ?thesis by blast
qed

theorem Write_null_field_witness:
  "healthy_Writer ((NewWriter bytes_Buffer)\<lparr>Escape := [0x21]\<rparr>) \<and>
   (\<exists>w'. Write ((NewWriter bytes_Buffer)\<lparr>Escape := [0x21]\<rparr>)
           ([Some [0x61, 0x62, 0x63]] @ None # [Some [0x61, 0x22, 0x62]]) =
             (Buffered (w_bufio w'), None, w') \<and>
         written w' =
           [0x22, 0x61, 0x62, 0x63, 0x22, 0x2C, 0x21, 0x4E, 0x2C, 0x22, 0x61, 0x21, 0x22, 0x62,
            0x22, 0x0A])"
proof -
  let ?w = "(NewWriter bytes_Buffer)\<lparr>Escape := [0x21]\<rparr>"
  have h: "healthy_Writer ?w"
    by (simp add: healthy_upd healthy_NewWriter accepting_bytes_Buffer)
  have a: "emit_fields ?w 0 [Some [0x61, 0x62, 0x63]] = [0x22, 0x61, 0x62, 0x63, 0x22]"
    by code_simp
  have b: "emit_fields ?w (length [Some [0x61, 0x62, 0x63 :: byte]] + 1) [Some [0x61, 0x22, 0x62]] =
      [0x2C, 0x22, 0x61, 0x21, 0x22, 0x62, 0x22]"
    by code_simp
  have c: "written ?w = []"
    by (simp add: written_upd written_NewWriter)
  have d: "Delimiter ?w = [0x2C]" "Escape ?w = [0x21]" "Terminator ?w = [0x0A]"
    by (simp_all add: NewWriter_def)
  from Write_null_field [OF h, of "[Some [0x61, 0x62, 0x63]]" "[Some [0x61, 0x22, 0x62]]"]
  obtain w' where r:
    "Write ?w ([Some [0x61, 0x62, 0x63]] @ None # [Some [0x61, 0x22, 0x62]]) =
       (Buffered (w_bufio w'), None, w')"
    "written w' =
       written ?w @ emit_fields ?w 0 [Some [0x61, 0x62, 0x63]] @
       (if [Some [0x61, 0x62, 0x63 :: byte]] = [] then [] else Delimiter ?w) @
       (Escape ?w @ [0x4E]) @
       emit_fields ?w (length [Some [0x61, 0x62, 0x63 :: byte]] + 1) [Some [0x61, 0x22, 0x62]] @
       Terminator ?w"
    by blast
  have "written w' =
      [0x22, 0x61, 0x62, 0x63, 0x22, 0x2C, 0x21, 0x4E, 0x2C, 0x22, 0x61, 0x21, 0x22, 0x62,
       0x22, 0x0A]"
    unfolding r(2) a b c d by simp
  with r(1) h show ?thesis by blast
qed

text \<open>
  C7. \<open>Flush\<close> is idempotent: in every state of the writer a second \<open>Flush\<close> right after
  a first one changes nothing, and in particular the destination receives no further call.
\<close>

theorem Flush_idempotent:
  "Flush (Flush w) = Flush w \<and>
   wr_calls (b_wr (w_bufio (Flush (Flush w)))) = wr_calls (b_wr (w_bufio (Flush w)))"
  by (simp add: Flush_def bufio_Flush_idem)

text \<open>
  C1 at the input where the code departs from it: with the quote symbol the single byte
  \<open>0xE9\<close> and the defaults otherwise, the quote byte inside the field \<open>a\<close>, \<open>0xE9\<close>, \<open>b\<close> is
  written with no escape symbol before it, because \<open>string(f)\<close> of a byte from \<open>0x80\<close> on is
  two bytes long and never equals a one-byte quote or escape symbol.
\<close>

theorem Write_high_quote:
  "written (snd (snd (Write ((NewWriter bytes_Buffer)\<lparr>Quote := [0xE9]\<rparr>)
      [Some [0x61, 0xE9, 0x62]]))) = [0xE9, 0x61, 0xE9, 0x62, 0xE9, 0x0A]"
  by code_simp

text \<open>The same with the escape symbol the single byte \<open>0xE9\<close>: the field \<open>0xE9\<close>.\<close>

lemma Write_high_escape:
  "written (snd (snd (Write ((NewWriter bytes_Buffer)\<lparr>Escape := [0xE9]\<rparr>)
      [Some [0xE9]]))) = [0x22, 0xE9, 0x22, 0x0A]"
  by code_simp

text \<open>
  Below \<open>0x80\<close> the switch does escape: a byte \<open>b\<close> that is the quote symbol or the escape
  symbol, or NUL, and is not the delimiter symbol, is written as exactly one escape symbol
  followed by the quote symbol, the escape symbol or the character \<open>0\<close> (byte \<open>0x30\<close>)
  respectively, between what the bytes before it and after it produce. The switch tries
  the delimiter first, so a byte that is also the delimiter takes the delimiter's case.
\<close>

lemma Write_escapes_ascii:
  assumes "healthy_Writer w"
    and "b < 0x80"
    and "[b] \<noteq> Delimiter w"
    and "[b] = Quote w \<or> [b] = Escape w \<or> b = 0x00"
  shows "\<exists>w'. Write w (pre @ Some (xs @ b # ys) # post) = (Buffered (w_bufio w'), None, w') \<and>
           written w' =
             written w @ (emit_fields w 0 pre @ (if pre = [] then [] else Delimiter w)) @
             Quote w @ concat (map (emit_byte w) xs) @
             (Escape w @
                (if [b] = Quote w then Quote w
                 else if [b] = Escape w then Escape w else [0x30])) @
             concat (map (emit_byte w) ys) @ Quote w @
             (emit_fields w (length pre + 1) post @ Terminator w)"
proof -
  have e: "emit_byte w b =
      Escape w @ (if [b] = Quote w then Quote w
                  else if [b] = Escape w then Escape w else [0x30])"
    using assms(2,3,4) by (auto simp: emit_byte_def sob_ascii sob_0 Let_def)
  from Write_written [OF assms(1), of "pre @ Some (xs @ b # ys) # post"] obtain w' where
    1: "Write w (pre @ Some (xs @ b # ys) # post) = (Buffered (w_bufio w'), None, w')"
       "written w' = written w @ emit_record w (pre @ Some (xs @ b # ys) # post)" by blast
  have "written w' =
             written w @ (emit_fields w 0 pre @ (if pre = [] then [] else Delimiter w)) @
             Quote w @ concat (map (emit_byte w) xs) @
             (Escape w @
                (if [b] = Quote w then Quote w
                 else if [b] = Escape w then Escape w else [0x30])) @
             concat (map (emit_byte w) ys) @ Quote w @
             (emit_fields w (length pre + 1) post @ Terminator w)"
    unfolding 1(2) emit_record_def emit_fields_at e [symmetric] by (simp add: emit_field_def)
  with 1(1) show ?thesis by blast
qed

text \<open>
  Where the delimiter is the quote character: with delimiter and quote both \<open>"\<close> (byte
  \<open>0x22\<close>) and escape the backslash (byte \<open>0x5C\<close>), the field \<open>"\<close> is written as three
  quote characters and the terminator, with no escape symbol in the line.
\<close>

lemma Write_quote_is_delimiter:
  "written (snd (snd (Write ((NewWriter bytes_Buffer)\<lparr>Delimiter := [0x22]\<rparr>) [Some [0x22]]))) =
     [0x22, 0x22, 0x22, 0x0A] \<and>
   Quote ((NewWriter bytes_Buffer)\<lparr>Delimiter := [0x22]\<rparr>) = [0x22] \<and>
   Escape ((NewWriter bytes_Buffer)\<lparr>Delimiter := [0x22]\<rparr>) = [0x5C]"
  by code_simp

text \<open>
  C3, as the code has it. With the delimiter, the quote and the escape symbol one byte
  each, for a row of non-null fields none of whose bytes is the delimiter, the quote, the
  escape, NUL or line feed (\<open>0x0A\<close>), the line is quote, field bytes unchanged, quote for
  each field, joined by the delimiter and followed by the terminator.
\<close>

theorem Write_plain_row:
  assumes "healthy_Writer w"
    and "Delimiter w = [d]" and "Quote w = [q]" and "Escape w = [e]"
    and "\<forall>bs\<in>set fs. \<forall>f\<in>set bs. f \<notin> {d, q, e, 0x00, 0x0A}"
  shows "\<exists>w'. Write w (map Some fs) = (Buffered (w_bufio w'), None, w') \<and>
           written w' =
             written w @ joined [d] (map (\<lambda>bs. [q] @ bs @ [q]) fs) @ Terminator w"
proof -
  from assms(2-5) have p: "\<forall>bs\<in>set fs. \<forall>f\<in>set bs.
      string_of_byte f \<notin> {Delimiter w, Quote w, Escape w} \<and> f \<noteq> 0x00 \<and> f \<noteq> 0x0A"
    by (auto simp: sob_single)
  from Write_written [OF assms(1), of "map Some fs"] emit_fields_plain [OF p, of 0] assms(2-4)
  show ?thesis by (auto simp: emit_record_def)
qed

theorem Write_plain_row_witness:
  "healthy_Writer (NewWriter bytes_Buffer) \<and>
   Delimiter (NewWriter bytes_Buffer) = [0x2C] \<and>
   Quote (NewWriter bytes_Buffer) = [0x22] \<and>
   Escape (NewWriter bytes_Buffer) = [0x5C] \<and>
   (\<exists>w'. Write (NewWriter bytes_Buffer) (map Some [[0x61, 0x62, 0x63], [0x64, 0x65, 0x66]]) =
           (Buffered (w_bufio w'), None, w') \<and>
         written w' =
           [0x22, 0x61, 0x62, 0x63, 0x22, 0x2C, 0x22, 0x64, 0x65, 0x66, 0x22, 0x0A])"
proof -
  let ?w = "NewWriter bytes_Buffer :: byte list Writer"
  let ?fs = "[[0x61, 0x62, 0x63], [0x64, 0x65, 0x66]] :: byte list list"
  have h: "healthy_Writer ?w"
    by (simp add: healthy_NewWriter accepting_bytes_Buffer)
  have s: "Delimiter ?w = [0x2C]" "Quote ?w = [0x22]" "Escape ?w = [0x5C]"
    by (simp_all add: NewWriter_def)
  have t: "Terminator ?w = [0x0A]"
    by (simp add: NewWriter_def)
  have p: "\<forall>bs\<in>set ?fs. \<forall>f\<in>set bs. f \<notin> {0x2C, 0x22, 0x5C, 0x00, 0x0A}"
    by simp
  from Write_plain_row [OF h s p] h s show ?thesis
    by (simp add: written_NewWriter t)
qed

text \<open>
  C3 as stated fails on a line feed inside a field: under the defaults the field \<open>a\<close>,
  line feed, \<open>b\<close> holds no delimiter, quote, escape or NUL byte, and the line feed is
  written with an escape symbol before it.
\<close>

theorem Write_line_feed_counterexample:
  "written (snd (snd (Write (NewWriter bytes_Buffer) [Some [0x61, 0x0A, 0x62]]))) =
     [0x22, 0x61, 0x5C, 0x0A, 0x62, 0x22, 0x0A] \<and>
   written (snd (snd (Write (NewWriter bytes_Buffer) [Some [0x61, 0x0A, 0x62]]))) \<noteq>
     Quote (NewWriter bytes_Buffer) @ [0x61, 0x0A, 0x62] @ Quote (NewWriter bytes_Buffer) @
     Terminator (NewWriter bytes_Buffer)"
  by code_simp

text \<open>
  C4 at the input where the code departs from it: with quoting disabled and the delimiter
  the single byte \<open>0xE9\<close>, the delimiter byte inside the field \<open>a\<close>, \<open>0xE9\<close>, \<open>b\<close> is written
  without an escape symbol, because \<open>string(f)\<close> of a byte from \<open>0x80\<close> on is two bytes long
  and never equals the delimiter.
\<close>

theorem Write_high_delimiter:
  "written (snd (snd (Write ((NewWriter bytes_Buffer)\<lparr>Delimiter := [0xE9], Quote := []\<rparr>)
      [Some [0x61, 0xE9, 0x62]]))) = [0x61, 0xE9, 0x62, 0x0A]"
  by code_simp

text \<open>The scenario of the specification: quoting disabled, field \<open>a,b\<close>.\<close>

lemma Write_a_comma_b:
  "written (snd (snd (Write ((NewWriter bytes_Buffer)\<lparr>Quote := []\<rparr>)
      [Some [0x61, 0x2C, 0x62]]))) = [0x61, 0x5C, 0x2C, 0x62, 0x0A]"
  by code_simp

text \<open>
  C10, as the code has it. A non-null field of length zero is written as the quote symbol
  twice, a null field in the same place as the escape symbol and \<open>N\<close>; the two lines
  differ whenever the doubled quote symbol is not the escape symbol followed by \<open>N\<close>.
\<close>

theorem Write_empty_field:
  assumes "healthy_Writer w"
  shows "\<exists>w1 w2.
           Write w (pre @ Some [] # post) = (Buffered (w_bufio w1), None, w1) \<and>
           Write w (pre @ None # post) = (Buffered (w_bufio w2), None, w2) \<and>
           written w1 =
             written w @ (emit_fields w 0 pre @ (if pre = [] then [] else Delimiter w)) @
             (Quote w @ Quote w) @ (emit_fields w (length pre + 1) post @ Terminator w) \<and>
           written w2 =
             written w @ (emit_fields w 0 pre @ (if pre = [] then [] else Delimiter w)) @
             (Escape w @ [0x4E]) @ (emit_fields w (length pre + 1) post @ Terminator w) \<and>
           (Quote w @ Quote w \<noteq> Escape w @ [0x4E] \<longrightarrow> written w1 \<noteq> written w2)"
proof -
  from Write_written [OF assms, of "pre @ Some [] # post"] obtain w1 where
    1: "Write w (pre @ Some [] # post) = (Buffered (w_bufio w1), None, w1)"
       "written w1 = written w @ emit_record w (pre @ Some [] # post)" by blast
  from Write_written [OF assms, of "pre @ None # post"] obtain w2 where
    2: "Write w (pre @ None # post) = (Buffered (w_bufio w2), None, w2)"
       "written w2 = written w @ emit_record w (pre @ None # post)" by blast
  let ?A = "emit_fields w 0 pre @ (if pre = [] then [] else Delimiter w)"
  let ?B = "emit_fields w (length pre + 1) post @ Terminator w"
  have a: "written w1 = written w @ ?A @ (Quote w @ Quote w) @ ?B"
    unfolding 1(2) emit_record_def emit_fields_at by (simp add: emit_field_def)
  have b: "written w2 = written w @ ?A @ (Escape w @ [0x4E]) @ ?B"
    unfolding 2(2) emit_record_def emit_fields_at by (simp add: emit_field_def)
  have "written w1 \<noteq> written w2" if "Quote w @ Quote w \<noteq> Escape w @ [0x4E]"
    using that unfolding a b by simp
  with 1(1) 2(1) a b show ?thesis by blast
qed

theorem Write_empty_field_witness:
  "healthy_Writer (NewWriter bytes_Buffer) \<and>
   Quote (NewWriter bytes_Buffer) @ Quote (NewWriter bytes_Buffer) \<noteq>
     Escape (NewWriter bytes_Buffer) @ [0x4E] \<and>
   (\<exists>w1 w2.
      Write (NewWriter bytes_Buffer) ([] @ Some [] # []) = (Buffered (w_bufio w1), None, w1) \<and>
      Write (NewWriter bytes_Buffer) ([] @ None # []) = (Buffered (w_bufio w2), None, w2) \<and>
      written w1 = [0x22, 0x22, 0x0A] \<and> written w2 = [0x5C, 0x4E, 0x0A] \<and>
      written w1 \<noteq> written w2)"
proof -
  let ?w = "NewWriter bytes_Buffer :: byte list Writer"
  have h: "healthy_Writer ?w"
    by (simp add: healthy_NewWriter accepting_bytes_Buffer)
  have q: "Quote ?w @ Quote ?w \<noteq> Escape ?w @ [0x4E]"
    by (simp add: NewWriter_def)
  have s: "Quote ?w = [0x22]" "Escape ?w = [0x5C]" "Terminator ?w = [0x0A]"
    by (simp_all add: NewWriter_def)
  from Write_empty_field [OF h, of "[]" "[]"] q h show ?thesis
    by (simp add: written_NewWriter s)
qed

text \<open>
  C10 as stated fails when quote and escape are both the letter \<open>N\<close>: the empty field and
  the null field give the same line.
\<close>

theorem Write_empty_field_counterexample:
  "written (snd (snd (Write ((NewWriter bytes_Buffer)\<lparr>Quote := [0x4E], Escape := [0x4E]\<rparr>)
      [Some []]))) =
   written (snd (snd (Write ((NewWriter bytes_Buffer)\<lparr>Quote := [0x4E], Escape := [0x4E]\<rparr>)
      [None])))"
  by code_simp

text \<open>
  C5, as the code has it. Whenever \<open>Write\<close> returns no error, the integer it returns is
  the number of bytes pending in the buffer at that moment, not the number the call wrote:
  on a healthy writer with room in the buffer it is the count pending before the call plus
  the bytes of this row, and right after a \<open>Flush\<close> it is the bytes of this row alone.
\<close>

theorem Write_returns_pending:
  "(Write w rcd = (n, e, w') \<and> e = None \<longrightarrow> n = Buffered (w_bufio w')) \<and>
   (healthy_Writer w \<and> Buffered (w_bufio w) + length (emit_record w rcd) \<le> defaultBufSize \<longrightarrow>
      fst (Write w rcd) = Buffered (w_bufio w) + length (emit_record w rcd)) \<and>
   (healthy_Writer w \<and> length (emit_record w rcd) \<le> defaultBufSize \<longrightarrow>
      fst (Write (Flush w) rcd) = length (emit_record w rcd))"
proof -
  have "fst (Write (Flush w) rcd) = length (emit_record w rcd)"
    if "healthy_Writer w" "length (emit_record w rcd) \<le> defaultBufSize"
    using Write_fits [of "Flush w" rcd] Flush_healthy_Writer [OF that(1)] that(2) by simp
  then show ?thesis using Write_Buffered [of w rcd n e w'] Write_fits [of w rcd] by blast
qed

theorem Write_returns_pending_witness:
  "healthy_Writer (snd (snd (Write (NewWriter bytes_Buffer) [Some [0x61, 0x62, 0x63]]))) \<and>
   fst (snd (Write (snd (snd (Write (NewWriter bytes_Buffer) [Some [0x61, 0x62, 0x63]])))
      [Some [0x64]])) = None \<and>
   Buffered (w_bufio (snd (snd (Write (NewWriter bytes_Buffer) [Some [0x61, 0x62, 0x63]])))) +
     length (emit_record (snd (snd (Write (NewWriter bytes_Buffer) [Some [0x61, 0x62, 0x63]])))
       [Some [0x64]]) \<le> defaultBufSize \<and>
   length (emit_record (snd (snd (Write (NewWriter bytes_Buffer) [Some [0x61, 0x62, 0x63]])))
       [Some [0x64]]) = 4 \<and>
   fst (Write (snd (snd (Write (NewWriter bytes_Buffer) [Some [0x61, 0x62, 0x63]])))
      [Some [0x64]]) =
     Buffered (w_bufio (snd (snd
       (Write (snd (snd (Write (NewWriter bytes_Buffer) [Some [0x61, 0x62, 0x63]])))
          [Some [0x64]])))) \<and>
   fst (Write (snd (snd (Write (NewWriter bytes_Buffer) [Some [0x61, 0x62, 0x63]])))
      [Some [0x64]]) = 10 \<and>
   fst (Write (Flush (snd (snd (Write (NewWriter bytes_Buffer) [Some [0x61, 0x62, 0x63]]))))
      [Some [0x64]]) = 4"
proof -
  let ?w = "snd (snd (Write (NewWriter bytes_Buffer) [Some [0x61, 0x62, 0x63]]))"
  let ?r = "[Some [0x64]] :: RawBytes list"
  have h0: "healthy_Writer (NewWriter bytes_Buffer)"
    by (simp add: healthy_NewWriter accepting_bytes_Buffer)
  from Write_written [OF h0, of "[Some [0x61, 0x62, 0x63]]"] have h: "healthy_Writer ?w"
    by auto
  have e: "fst (snd (Write ?w ?r)) = None" by code_simp
  have b: "Buffered (w_bufio ?w) = 6" by code_simp
  have l: "length (emit_record ?w ?r) = 4" by code_simp
  note t = Write_returns_pending [of ?w ?r "fst (Write ?w ?r)" "fst (snd (Write ?w ?r))"
      "snd (snd (Write ?w ?r))"]
  have p: "Write ?w ?r = (fst (Write ?w ?r), fst (snd (Write ?w ?r)), snd (snd (Write ?w ?r)))"
    by simp
  from t [THEN conjunct1] p e
  have 1: "fst (Write ?w ?r) = Buffered (w_bufio (snd (snd (Write ?w ?r))))" by blast
  from t [THEN conjunct2, THEN conjunct1] h b l have 2: "fst (Write ?w ?r) = 10"
    by (simp add: defaultBufSize_def)
  from t [THEN conjunct2, THEN conjunct2] h l have 3: "fst (Write (Flush ?w) ?r) = 4"
    by (simp add: defaultBufSize_def)
  from h e b l 1 2 3 show ?thesis by (simp add: defaultBufSize_def)
qed

text \<open>
  C5 as stated fails on an early error return, which leaves the result \<open>buf\<close> at zero:
  after a row written to the test file's \<open>errorWriter\<close> and a \<open>Flush\<close> that fails, the next
  \<open>Write\<close> returns 0 while the six bytes of the first row are still pending.
\<close>

theorem Write_returns_pending_counterexample:
  "fst (Write (Flush (snd (snd (Write (NewWriter errorWriter) [Some [0x61, 0x62, 0x63]]))))
          [Some [0x61, 0x62, 0x63]]) = 0 \<and>
   Buffered (w_bufio (snd (snd
     (Write (Flush (snd (snd (Write (NewWriter errorWriter) [Some [0x61, 0x62, 0x63]]))))
          [Some [0x61, 0x62, 0x63]])))) = 6"
  by code_simp

text \<open>
  C6. In every state the writer can reach, the recorded error is the first failure among
  the calls its destination has received (an error returned, or a short count, which is
  \<open>io.ErrShortWrite\<close>). \<open>Write\<close> returns exactly the first failure among the calls made up
  to its return, so a failure during the call, or during an earlier \<open>Write\<close> or \<open>Flush\<close>,
  is returned by it; once an error is recorded \<open>Write\<close> and \<open>Flush\<close> leave the whole state
  as it is, the call history included; \<open>Error\<close> always returns, gives the first failure and
  changes nothing; and it gives no error exactly when no call has failed.
\<close>

theorem Write_error_sticky:
  assumes "reachable w"
  shows "b_err (w_bufio w) = first_failure (wr_calls (b_wr (w_bufio w))) \<and>
         (\<forall>rcd n e w'. Write w rcd = (n, e, w') \<longrightarrow>
            e = first_failure (wr_calls (b_wr (w_bufio w'))) \<and>
            (b_err (w_bufio w) \<noteq> None \<longrightarrow> w' = w)) \<and>
         (b_err (w_bufio w) \<noteq> None \<longrightarrow> Flush w = w) \<and>
         Error w = Some (first_failure (wr_calls (b_wr (w_bufio w))), w) \<and>
         (Error w = Some (None, w) \<longleftrightarrow>
            (\<forall>c\<in>set (wr_calls (b_wr (w_bufio w))). call_err c = None))"
proof -
  from reachable_recorded [OF assms]
  have 1: "b_err (w_bufio w) = first_failure (wr_calls (b_wr (w_bufio w)))"
    by (simp add: err_recorded_def)
  have 2: "e = first_failure (wr_calls (b_wr (w_bufio w'))) \<and>
            (b_err (w_bufio w) \<noteq> None \<longrightarrow> w' = w)"
    if r: "Write w rcd = (n, e, w')" for rcd n e w'
  proof -
    from r have "snd (snd (Write w rcd)) = w'" by simp
    with reachable.Write [OF assms, of rcd] have "reachable w'" by simp
    from reachable_recorded [OF this] Write_evolves [OF r] show ?thesis
      by (auto simp: err_recorded_def dest: w_evolves_sticky)
  qed
  have 3: "Flush w = w" if "b_err (w_bufio w) \<noteq> None"
    using Flush_w_evolves [of w] that by (rule w_evolves_sticky)
  have 4: "Error w = Some (first_failure (wr_calls (b_wr (w_bufio w))), w)"
    by (simp add: Error_returns 1 [symmetric])
  have 5: "Error w = Some (None, w) \<longleftrightarrow>
            (\<forall>c\<in>set (wr_calls (b_wr (w_bufio w))). call_err c = None)"
    by (auto simp: 4 first_failure_None)
  from 1 2 3 4 5 show ?thesis by blast
qed

theorem Write_error_sticky_witness:
  "reachable (Flush (snd (snd (Write (NewWriter errorWriter) [Some [0x61, 0x62, 0x63]])))) \<and>
   b_err (w_bufio (Flush (snd (snd (Write (NewWriter errorWriter) [Some [0x61, 0x62, 0x63]]))))) =
     Some errTest \<and>
   Write (Flush (snd (snd (Write (NewWriter errorWriter) [Some [0x61, 0x62, 0x63]]))))
       [Some [0x64]] =
     (0, Some errTest,
      Flush (snd (snd (Write (NewWriter errorWriter) [Some [0x61, 0x62, 0x63]])))) \<and>
   Flush (Flush (snd (snd (Write (NewWriter errorWriter) [Some [0x61, 0x62, 0x63]])))) =
     Flush (snd (snd (Write (NewWriter errorWriter) [Some [0x61, 0x62, 0x63]]))) \<and>
   Error (Flush (snd (snd (Write (NewWriter errorWriter) [Some [0x61, 0x62, 0x63]])))) =
     Some (Some errTest,
           Flush (snd (snd (Write (NewWriter errorWriter) [Some [0x61, 0x62, 0x63]]))))"
proof -
  let ?w = "Flush (snd (snd (Write (NewWriter errorWriter) [Some [0x61, 0x62, 0x63]])))"
  have r: "reachable ?w"
    by (intro reachable.Flush reachable.Write reachable.new) (simp add: errorWriter_def)
  have f: "first_failure (wr_calls (b_wr (w_bufio ?w))) = Some errTest"
    by code_simp
  have n: "fst (Write ?w [Some [0x64]]) = 0"
    by code_simp
  note t = Write_error_sticky [OF r]
  from t f have e: "b_err (w_bufio ?w) = Some errTest" by simp
  obtain k x w' where w: "Write ?w [Some [0x64]] = (k, x, w')"
    by (cases "Write ?w [Some [0x64]]")
  with t e f have "x = Some errTest" "w' = ?w" by auto
  with w n have 1: "Write ?w [Some [0x64]] = (0, Some errTest, ?w)" by simp
  from t e have 2: "Flush ?w = ?w" by simp
  from t f have 3: "Error ?w = Some (Some errTest, ?w)" by simp
  from r e 1 2 3 show ?thesis by blast
qed

text \<open>
  C8, as the code has it. No configured symbol is rejected for being longer than one
  character. The earlier \<open>main\<close> exits before streaming exactly when the delimiter, the
  quote or the escape value is the empty string; the current \<open>main\<close> rejects nothing and
  stores the delimiter (a tab for backslash-t), the quote and the escape value as given,
  on a writer that has written nothing yet.
\<close>

theorem main_CSVWriter_accepts:
  "((\<exists>msg. main_CSVWriter_rune writerDest csvDelimiter csvQuote csvEscape csvTerminator = Inl msg)
      \<longleftrightarrow> csvDelimiter = [] \<or> csvQuote = [] \<or> csvEscape = []) \<and>
   Delimiter (main_CSVWriter writerDest csvDelimiter csvQuote csvEscape csvTerminator) =
     (if csvDelimiter = [0x5C, 0x74] then [0x09] else csvDelimiter) \<and>
   Quote (main_CSVWriter writerDest csvDelimiter csvQuote csvEscape csvTerminator) = csvQuote \<and>
   Escape (main_CSVWriter writerDest csvDelimiter csvQuote csvEscape csvTerminator) = csvEscape \<and>
   w_bufio (main_CSVWriter writerDest csvDelimiter csvQuote csvEscape csvTerminator) =
     bufio_NewWriter writerDest"
proof -
  obtain r1 i1 where 1: "utf8_DecodeLastRuneInString csvDelimiter = (r1, i1)"
    by (cases "utf8_DecodeLastRuneInString csvDelimiter")
  obtain r2 i2 where 2: "utf8_DecodeLastRuneInString csvQuote = (r2, i2)"
    by (cases "utf8_DecodeLastRuneInString csvQuote")
  obtain r3 i3 where 3: "utf8_DecodeLastRuneInString csvEscape = (r3, i3)"
    by (cases "utf8_DecodeLastRuneInString csvEscape")
  from 1 2 3 DecodeLastRune_size [of csvDelimiter] DecodeLastRune_size [of csvQuote]
    DecodeLastRune_size [of csvEscape]
  have i: "i1 = 0 \<longleftrightarrow> csvDelimiter = []" "i2 = 0 \<longleftrightarrow> csvQuote = []" "i3 = 0 \<longleftrightarrow> csvEscape = []"
    by simp_all
  have a: "(\<exists>msg. main_CSVWriter_rune writerDest csvDelimiter csvQuote csvEscape csvTerminator = Inl msg)
      \<longleftrightarrow> csvDelimiter = [] \<or> csvQuote = [] \<or> csvEscape = []"
    using i by (simp add: main_CSVWriter_rune_def 1 2 3 Let_def del: One_nat_def)
  show ?thesis
    using a by (simp add: main_CSVWriter_def Let_def NewWriter_def)
qed

text \<open>
  C8 as stated fails on the delimiter \<open>||\<close>: the current \<open>main\<close> stores both characters and
  the export writes them between the fields; the earlier \<open>main\<close> does not exit either and
  takes the last character.
\<close>

theorem main_CSVWriter_counterexample:
  "Delimiter (main_CSVWriter bytes_Buffer [0x7C, 0x7C] [0x22] [0x5C] [0x0A]) = [0x7C, 0x7C] \<and>
   written (snd (snd (Write (main_CSVWriter bytes_Buffer [0x7C, 0x7C] [0x22] [0x5C] [0x0A])
      [Some [0x61], Some [0x62]]))) = [0x22, 0x61, 0x22, 0x7C, 0x7C, 0x22, 0x62, 0x22, 0x0A] \<and>
   \<not> isl (main_CSVWriter_rune bytes_Buffer [0x7C, 0x7C] [0x22] [0x5C] [0x0A]) \<and>
   Delimiter_r (projr (main_CSVWriter_rune bytes_Buffer [0x7C, 0x7C] [0x22] [0x5C] [0x0A])) = 0x7C"
  by code_simp

text \<open>
  C9. In every state the pipeline reaches, whatever the interleaving: each fetch of row
  \<open>i + 1\<close> comes after the advance signal for row \<open>i\<close>; each send of row \<open>i + 1\<close> comes
  after the advance signal for row \<open>i\<close>, and each send of a row after its fetch; and every
  call of \<open>Write\<close> for row \<open>i\<close> reads, through the shared scan buffer, exactly row \<open>i\<close> of
  the result.
\<close>

theorem pipeline_lock_step:
  assumes "step\<^sup>*\<^sup>* (pipeline_init csvHeader cols rws err w) s"
  shows "(\<forall>i. precedes (Advanced (Data i)) (Fetched (Suc i)) (trace s)) \<and>
         (\<forall>i. precedes (Advanced (Data i)) (Sent (Data (Suc i))) (trace s)) \<and>
         (\<forall>i. precedes (Fetched i) (Sent (Data i)) (trace s)) \<and>
         (\<forall>i bs. Encoded (Data i) bs \<in> set (trace s) \<longrightarrow> i < length rws \<and> bs = rws ! i)"
  using inv_reachable [OF assms] by (simp add: pipeline_inv_def)

theorem pipeline_lock_step_witness:
  "\<exists>s. step\<^sup>*\<^sup>* (pipeline_init False [[0x61]] [[Some [0x78]], [Some [0x79]]] None
               (NewWriter bytes_Buffer)) s \<and>
       trace s =
         [Fetched 0, Sent (Data 0), Encoded (Data 0) [Some [0x78]], Advanced (Data 0),
          Fetched 1] \<and>
       precedes (Advanced (Data 0)) (Fetched (Suc 0)) (trace s) \<and>
       precedes (Fetched 0) (Sent (Data 0)) (trace s) \<and>
       0 < length [[Some [0x78 :: byte]], [Some [0x79]]] \<and>
       [Some [0x78]] = [[Some [0x78 :: byte]], [Some [0x79]]] ! 0"
proof -
  let ?s0 = "pipeline_init False [[0x61]] [[Some [0x78]], [Some [0x79]]] None
      (NewWriter bytes_Buffer)"
  have h: "healthy_Writer (NewWriter bytes_Buffer)"
    by (simp add: healthy_NewWriter accepting_bytes_Buffer)
  from writeCSV_body_healthy [OF h, of "[Some [0x78]]"] obtain w1 where
    b: "writeCSV_body (NewWriter bytes_Buffer) [Some [0x78]] = Some (Inr w1)" by blast
  define s1 where "s1 = ?s0\<lparr>rows := [[Some [0x79]]], vals := [Some [0x78]],
      readRows_pc := P_send, fetched := fetched ?s0 + 1,
      trace := trace ?s0 @ [Fetched (fetched ?s0)]\<rparr>"
  have 1: "step ?s0 s1"
    unfolding s1_def by (rule step.next_row) (simp_all add: pipeline_init_def)
  define s2 where "s2 = s1\<lparr>readRows_pc := P_go,
      writeCSV_pc := C_Write Ref_vals (Data (fetched s1 - 1)),
      trace := trace s1 @ [Sent (Data (fetched s1 - 1))]\<rparr>"
  have 2: "step s1 s2"
    unfolding s2_def by (rule step.send_row) (simp_all add: s1_def pipeline_init_def)
  define s3 where "s3 = s2\<lparr>csv := w1, rowsWritten := rowsWritten s2 + 1,
      writeCSV_pc := C_go (Data 0), trace := trace s2 @ [Encoded (Data 0) (deref s2 Ref_vals)]\<rparr>"
  have 3: "step s2 s3"
    unfolding s3_def
    by (rule step.write_row) (simp_all add: s2_def s1_def pipeline_init_def deref_def b)
  define s4 where "s4 = s3\<lparr>readRows_pc := P_next, writeCSV_pc := C_range,
      trace := trace s3 @ [Advanced (Data 0)]\<rparr>"
  have 4: "step s3 s4"
    unfolding s4_def
    by (rule step.advance) (simp_all add: s3_def s2_def s1_def pipeline_init_def)
  define s5 where "s5 = s4\<lparr>rows := [], vals := [Some [0x79]],
      readRows_pc := P_send, fetched := fetched s4 + 1,
      trace := trace s4 @ [Fetched (fetched s4)]\<rparr>"
  have 5: "step s4 s5"
    unfolding s5_def
    by (rule step.next_row) (simp_all add: s4_def s3_def s2_def s1_def pipeline_init_def)
  have "step\<^sup>*\<^sup>* ?s0 s1" using 1 by (rule r_into_rtranclp)
  then have "step\<^sup>*\<^sup>* ?s0 s2" using 2 by (rule rtranclp.rtrancl_into_rtrancl)
  then have "step\<^sup>*\<^sup>* ?s0 s3" using 3 by (rule rtranclp.rtrancl_into_rtrancl)
  then have "step\<^sup>*\<^sup>* ?s0 s4" using 4 by (rule rtranclp.rtrancl_into_rtrancl)
  then have reach: "step\<^sup>*\<^sup>* ?s0 s5" using 5 by (rule rtranclp.rtrancl_into_rtrancl)
  have tr: "trace s5 =
      [Fetched 0, Sent (Data 0), Encoded (Data 0) [Some [0x78]], Advanced (Data 0), Fetched 1]"
    by (simp add: s5_def s4_def s3_def s2_def s1_def pipeline_init_def deref_def)
  note t = pipeline_lock_step [OF reach]
  have a: "precedes (Advanced (Data 0)) (Fetched (Suc 0)) (trace s5)"
    by (rule t [THEN conjunct1, THEN spec])
  have f: "precedes (Fetched 0) (Sent (Data 0)) (trace s5)"
    by (rule t [THEN conjunct2, THEN conjunct2, THEN conjunct1, THEN spec])
  have "Encoded (Data 0) [Some [0x78]] \<in> set (trace s5)" unfolding tr by simp
  with t [THEN conjunct2, THEN conjunct2, THEN conjunct2, THEN spec, THEN spec]
  have e: "0 < length [[Some [0x78 :: byte]], [Some [0x79]]] \<and>
      [Some [0x78]] = [[Some [0x78 :: byte]], [Some [0x79]]] ! 0"
    by (rule mp)
  show ?thesis
    by (rule exI [of _ s5]) (intro conjI reach tr a f e [THEN conjunct1] e [THEN conjunct2])
qed

end
